theory Spec2Isabelle
  imports Main
begin

section \<open>Strings\<close>

text \<open>
  A Python \<^verbatim>\<open>str\<close> is a sequence of Unicode code points, and \<^verbatim>\<open>len\<close>, indexing and
  \<^verbatim>\<open>ord\<close> all work on code points. A string is therefore a list of code points, each a
  natural number.
\<close>

type_synonym ustring = "nat list"

text \<open>An ASCII literal of the source, as code points.\<close>

definition ascii :: "string \<Rightarrow> ustring" where
  "ascii s = map of_char s"

abbreviation NL :: nat where "NL \<equiv> 10"
abbreviation TAB :: nat where "TAB \<equiv> 9"
abbreviation SP :: nat where "SP \<equiv> 32"

text \<open>The Hangul syllables U+B2E4, U+C788 and U+ACA0 that \<^verbatim>\<open>_classify_ending\<close> names.\<close>

definition DA :: nat where
  "DA = 0xB2E4"

definition ISS :: nat where
  "ISS = 0xC788"

definition GESS :: nat where
  "GESS = 0xACA0"

datatype py_error = IndexError | ValueError

text \<open>
  \<^verbatim>\<open>str.isspace\<close> on one character, which is also what \<^verbatim>\<open>\s\<close> matches in a \<^verbatim>\<open>str\<close>
  pattern and what \<^verbatim>\<open>strip()\<close> removes: the code points with the Unicode White\_Space
  property or bidirectional class WS, B or S.
\<close>

definition py_isspace :: "nat \<Rightarrow> bool" where
  "py_isspace c \<longleftrightarrow>
     (9 \<le> c \<and> c \<le> 13) \<or> (28 \<le> c \<and> c \<le> 32) \<or> c = 0x85 \<or> c = 0xA0 \<or> c = 0x1680 \<or>
     (0x2000 \<le> c \<and> c \<le> 0x200A) \<or> c = 0x2028 \<or> c = 0x2029 \<or> c = 0x202F \<or> c = 0x205F \<or>
     c = 0x3000"

definition lstrip :: "ustring \<Rightarrow> ustring" where
  "lstrip s = dropWhile py_isspace s"

definition rstrip :: "ustring \<Rightarrow> ustring" where
  "rstrip s = rev (dropWhile py_isspace (rev s))"

definition strip :: "ustring \<Rightarrow> ustring" where
  "strip s = lstrip (rstrip s)"

text \<open>\<^verbatim>\<open>s.rstrip(chars)\<close>: drop the trailing characters that belong to \<open>chars\<close>.\<close>

definition rstrip_chars :: "ustring \<Rightarrow> ustring \<Rightarrow> ustring" where
  "rstrip_chars chars s = rev (dropWhile (\<lambda>c. c \<in> set chars) (rev s))"

definition startswith :: "ustring \<Rightarrow> ustring \<Rightarrow> bool" where
  "startswith p s \<longleftrightarrow> take (length p) s = p"

text \<open>\<^verbatim>\<open>sub in s\<close>.\<close>

fun contains :: "ustring \<Rightarrow> ustring \<Rightarrow> bool" where
  "contains sub [] \<longleftrightarrow> sub = []"
| "contains sub (c # cs) \<longleftrightarrow> startswith sub (c # cs) \<or> contains sub cs"

text \<open>\<^verbatim>\<open>s.split("\n")\<close>: never empty, one more line than there are newlines.\<close>

fun split_nl :: "ustring \<Rightarrow> ustring list" where
  "split_nl [] = [[]]"
| "split_nl (c # cs) =
     (if c = NL then [] # split_nl cs
      else (case split_nl cs of l # ls \<Rightarrow> (c # l) # ls | [] \<Rightarrow> [[c]]))"

text \<open>\<^verbatim>\<open>sep.join(ls)\<close>.\<close>

fun join :: "ustring \<Rightarrow> ustring list \<Rightarrow> ustring" where
  "join sep [] = []"
| "join sep [l] = l"
| "join sep (l # ls) = l @ sep @ join sep ls"

text \<open>\<^verbatim>\<open>s.replace(c, "")\<close> for a one-character \<open>c\<close>.\<close>

definition remove_char :: "nat \<Rightarrow> ustring \<Rightarrow> ustring" where
  "remove_char c s = filter (\<lambda>x. x \<noteq> c) s"

text \<open>
  \<^verbatim>\<open>xs[i]\<close> on a Python list: a negative index counts from the end, and an index out of
  range raises.
\<close>

definition py_get :: "'a list \<Rightarrow> int \<Rightarrow> py_error + 'a" where
  "py_get xs i =
     (if 0 \<le> i \<and> i < int (length xs) then Inr (xs ! nat i)
      else if i < 0 \<and> - int (length xs) \<le> i then Inr (xs ! nat (int (length xs) + i))
      else Inl IndexError)"

text \<open>\<^verbatim>\<open>s[-30:]\<close>: the last 30 characters, or all of \<open>s\<close> when it is shorter.\<close>

definition last30 :: "ustring \<Rightarrow> ustring" where
  "last30 s = drop (length s - 30) s"

section \<open>Regular-expression search\<close>

text \<open>
  \<^verbatim>\<open>re.search\<close> tries every start position from the left, the end of the text included,
  and returns the first match. None of the patterns of the two scripts looks behind its
  start, so a pattern is a function that matches at the beginning of what is left of the
  text.
\<close>

fun re_search :: "(ustring \<Rightarrow> 'a option) \<Rightarrow> ustring \<Rightarrow> 'a option" where
  "re_search m [] = m []"
| "re_search m (c # cs) = (case m (c # cs) of Some r \<Rightarrow> Some r | None \<Rightarrow> re_search m cs)"

text \<open>
  What the rest of a lazy \<^verbatim>\<open>.+?\<close> takes under \<^verbatim>\<open>re.DOTALL\<close>: characters up to the first
  position where the pattern that follows matches. Every such pattern of the scripts has
  the alternative \<^verbatim>\<open>\Z\<close>, which matches at the end of the text.
\<close>

fun lazy_until :: "(ustring \<Rightarrow> bool) \<Rightarrow> ustring \<Rightarrow> ustring" where
  "lazy_until stop [] = []"
| "lazy_until stop (x # xs) = (if stop (x # xs) then [] else x # lazy_until stop xs)"

section \<open>validate.py\<close>

subsection \<open>Body extraction\<close>

text \<open>
  \<^verbatim>\<open>re.match(r"^\[IMG:[^\]]+\]$", stripped)\<close>: the literal \<^verbatim>\<open>[IMG:\<close>, then the longest run of
  characters other than \<^verbatim>\<open>]\<close>, which must not be empty, then \<^verbatim>\<open>]\<close> at the end of the string;
  \<^verbatim>\<open>$\<close> also matches just before a final newline.
\<close>

definition is_img_line :: "ustring \<Rightarrow> bool" where
  "is_img_line s \<longleftrightarrow>
     startswith (ascii ''[IMG:'') s \<and>
     (let r = drop 5 s; mid = takeWhile (\<lambda>c. c \<noteq> 93) r; rest = dropWhile (\<lambda>c. c \<noteq> 93) r
      in mid \<noteq> [] \<and> (rest = [93] \<or> rest = [93, NL]))"

text \<open>The two spellings of the next-episode preview label, with and without the space.\<close>

definition preview_label :: ustring where
  "preview_label = ascii ''**'' @ [0xB2E4, 0xC74C, SP, 0xD654, SP, 0xC608, 0xACE0] @ ascii ''**''"

definition preview_label_nospace :: ustring where
  "preview_label_nospace = ascii ''**'' @ [0xB2E4, 0xC74C, 0xD654, SP, 0xC608, 0xACE0] @ ascii ''**''"

text \<open>
  The loop of \<^verbatim>\<open>extract_body\<close> over the lines, with the flag \<^verbatim>\<open>in_body\<close>; the result is
  \<^verbatim>\<open>body_lines\<close>, and \<^verbatim>\<open>break\<close> ends it.
\<close>

fun body_lines :: "bool \<Rightarrow> ustring list \<Rightarrow> ustring list" where
  "body_lines in_body [] = []"
| "body_lines in_body (line # lines) =
     (let stripped = strip line
      in if startswith (ascii ''# EP-'') stripped then body_lines True lines
         else if startswith (ascii ''>'') stripped \<and> \<not> in_body then body_lines in_body lines
         else if \<not> in_body then
           (if stripped = ascii ''---'' then body_lines True lines
            else body_lines in_body lines)
         else if startswith preview_label stripped \<or> startswith preview_label_nospace stripped
           then []
         else if is_img_line stripped then body_lines in_body lines
         else if stripped = ascii ''---'' then body_lines in_body lines
         else line # body_lines in_body lines)"

definition extract_body :: "ustring \<Rightarrow> ustring" where
  "extract_body text = join [NL] (body_lines False (split_nl text))"

subsection \<open>The checks F1 and F2\<close>

datatype verdict = PASS | FAIL

text \<open>
  A check's record. The fields \<^verbatim>\<open>name\<close>, \<^verbatim>\<open>criteria\<close> and \<^verbatim>\<open>detail\<close> are display text
  computed from \<^verbatim>\<open>value\<close> and the verdict, and are left out.
\<close>

record check_result =
  check_id :: string
  result :: verdict
  val :: nat

definition char_count :: "ustring \<Rightarrow> nat" where
  "char_count text = length (remove_char SP (remove_char NL (extract_body text)))"

definition check_f1_char_count :: "ustring \<Rightarrow> check_result" where
  "check_f1_char_count text =
     (let char_count = char_count text;
          passed = (9000 \<le> char_count \<and> char_count \<le> 11000)
      in \<lparr>check_id = ''F1'', result = (if passed then PASS else FAIL), val = char_count\<rparr>)"

text \<open>The specification's measure for F1: the characters of the body that are not whitespace.\<close>

definition whitespace_stripped_count :: "ustring \<Rightarrow> nat" where
  "whitespace_stripped_count body = length (filter (\<lambda>c. \<not> py_isspace c) body)"




subsection \<open>The sentence-ending classifier\<close>

datatype category = PAST | OTHER_DA | NON_DA

text \<open>\<^verbatim>\<open>_has_ssang_siot_batchim\<close>: \<^verbatim>\<open>ord(char) - 0xAC00\<close> may be negative, so it is an \<open>int\<close>.\<close>

definition has_ssang_siot_batchim :: "nat \<Rightarrow> bool" where
  "has_ssang_siot_batchim char =
     (let code = int char - 0xAC00
      in if code < 0 \<or> code > 11171 then False else code mod 28 = 20)"

text \<open>The characters \<^verbatim>\<open>".!? \t"\<close> of the \<^verbatim>\<open>rstrip\<close> call.\<close>

definition ending_punct :: ustring where
  "ending_punct = [46, 33, 63, SP, TAB]"

text \<open>
  \<^verbatim>\<open>_classify_ending\<close>. Under the guard \<^verbatim>\<open>len(clean) >= 2\<close> the reads \<^verbatim>\<open>clean[-1]\<close> and
  \<^verbatim>\<open>clean[-2]\<close> are in range.
\<close>

definition classify_ending :: "ustring \<Rightarrow> category" where
  "classify_ending sentence =
     (let clean = rstrip_chars ending_punct sentence
      in if length clean \<ge> 2 \<and> clean ! (length clean - 1) = DA then
           (let prev = clean ! (length clean - 2)
            in if has_ssang_siot_batchim prev then
                 (if prev \<in> set [ISS, GESS] then OTHER_DA else PAST)
               else OTHER_DA)
         else NON_DA)"

subsection \<open>The run detector of F6\<close>

text \<open>One entry of \<^verbatim>\<open>violation_groups\<close>: the keys \<^verbatim>\<open>start\<close>, \<^verbatim>\<open>length\<close> and \<^verbatim>\<open>samples\<close>.\<close>

record violation_group =
  g_start :: int
  g_length :: nat
  g_samples :: "ustring list"

text \<open>\<^verbatim>\<open>range(a, b)\<close>.\<close>

definition py_range :: "int \<Rightarrow> int \<Rightarrow> int list" where
  "py_range a b = [a..b - 1]"

text \<open>
  \<^verbatim>\<open>[sentence_texts[j][-30:] for j in js]\<close>: the first index out of range raises.
\<close>

fun samples_of :: "ustring list \<Rightarrow> int list \<Rightarrow> py_error + ustring list" where
  "samples_of sentence_texts [] = Inr []"
| "samples_of sentence_texts (j # js) =
     (case py_get sentence_texts j of
        Inl e \<Rightarrow> Inl e
      | Inr t \<Rightarrow>
          (case samples_of sentence_texts js of
             Inl e \<Rightarrow> Inl e
           | Inr ss \<Rightarrow> Inr (last30 t # ss)))"

definition make_group :: "ustring list \<Rightarrow> int \<Rightarrow> nat \<Rightarrow> py_error + violation_group" where
  "make_group sentence_texts start consecutive =
     (case samples_of sentence_texts (py_range start (start + int (min consecutive 3))) of
        Inl e \<Rightarrow> Inl e
      | Inr ss \<Rightarrow> Inr \<lparr>g_start = start, g_length = consecutive, g_samples = ss\<rparr>)"

text \<open>
  The loop \<^verbatim>\<open>for i, cat in enumerate(categories)\<close>. Its state is \<^verbatim>\<open>start\<close> (\<open>-1\<close> when no
  run is open), \<^verbatim>\<open>consecutive\<close> and \<^verbatim>\<open>violation_groups\<close>.
\<close>

fun scan_categories ::
  "ustring list \<Rightarrow> nat \<Rightarrow> category list \<Rightarrow> int \<times> nat \<times> violation_group list \<Rightarrow>
   py_error + (int \<times> nat \<times> violation_group list)" where
  "scan_categories sentence_texts i [] st = Inr st"
| "scan_categories sentence_texts i (cat # cats) (start, consecutive, groups) =
     (if cat = PAST then
        scan_categories sentence_texts (Suc i) cats
          (if consecutive = 0 then int i else start, consecutive + 1, groups)
      else if consecutive \<ge> 3 then
        (case make_group sentence_texts start consecutive of
           Inl e \<Rightarrow> Inl e
         | Inr g \<Rightarrow> scan_categories sentence_texts (Suc i) cats (-1, 0, groups @ [g]))
      else scan_categories sentence_texts (Suc i) cats (-1, 0, groups))"

text \<open>
  The run detection of \<^verbatim>\<open>check_f6_sentence_endings\<close>: the loop, then the group of a run
  that is still open when the sequence ends. The function appends to \<^verbatim>\<open>categories\<close> and
  \<^verbatim>\<open>sentence_texts\<close> together, so the two lists it scans have the same length.
\<close>

definition violation_groups ::
  "category list \<Rightarrow> ustring list \<Rightarrow> py_error + violation_group list" where
  "violation_groups categories sentence_texts =
     (case scan_categories sentence_texts 0 categories (-1, 0, []) of
        Inl e \<Rightarrow> Inl e
      | Inr (start, consecutive, groups) \<Rightarrow>
          if consecutive \<ge> 3 then
            (case make_group sentence_texts start consecutive of
               Inl e \<Rightarrow> Inl e
             | Inr g \<Rightarrow> Inr (groups @ [g]))
          else Inr groups)"

text \<open>
  The specification's notion: \<open>l\<close> entries from index \<open>s\<close> on are a maximal run of
  \<open>PAST\<close> when all of them are \<open>PAST\<close> and neither neighbour is.
\<close>

definition maximal_past_run :: "category list \<Rightarrow> nat \<Rightarrow> nat \<Rightarrow> bool" where
  "maximal_past_run cats s l \<longleftrightarrow>
     0 < l \<and> s + l \<le> length cats \<and>
     (\<forall>k \<in> {s..<s + l}. cats ! k = PAST) \<and>
     (s = 0 \<or> cats ! (s - 1) \<noteq> PAST) \<and>
     (s + l = length cats \<or> cats ! (s + l) \<noteq> PAST)"

text \<open>The start index and the length that a group records.\<close>

definition group_span :: "violation_group \<Rightarrow> int \<times> nat" where
  "group_span g = (g_start g, g_length g)"

section \<open>context\_assembly.py\<close>

subsection \<open>Episode numbers\<close>

text \<open>
  \<^verbatim>\<open>\d\<close> in a \<^verbatim>\<open>str\<close> pattern matches the Unicode decimal digits (category Nd), and \<^verbatim>\<open>int\<close>
  reads them. They come in blocks of ten consecutive code points with the values 0 to 9;
  these are the zeros of the blocks (Unicode 14.0).
\<close>

definition nd_zeros :: "nat list" where
  "nd_zeros =
     [0x30, 0x660, 0x6F0, 0x7C0, 0x966, 0x9E6, 0xA66, 0xAE6, 0xB66, 0xBE6, 0xC66, 0xCE6, 0xD66,
      0xDE6, 0xE50, 0xED0, 0xF20, 0x1040, 0x1090, 0x17E0, 0x1810, 0x1946, 0x19D0, 0x1A80,
      0x1A90, 0x1B50, 0x1BB0, 0x1C40, 0x1C50, 0xA620, 0xA8D0, 0xA900, 0xA9D0, 0xA9F0, 0xAA50,
      0xABF0, 0xFF10, 0x104A0, 0x10D30, 0x11066, 0x110F0, 0x11136, 0x111D0, 0x112F0, 0x11450,
      0x114D0, 0x11650, 0x116C0, 0x11730, 0x118E0, 0x11950, 0x11C50, 0x11D50, 0x11DA0, 0x16A60,
      0x16AC0, 0x16B50, 0x1D7CE, 0x1D7D8, 0x1D7E2, 0x1D7EC, 0x1D7F6, 0x1E140, 0x1E2F0, 0x1E950,
      0x1FBF0]"

definition digit_value :: "nat \<Rightarrow> nat option" where
  "digit_value c =
     (case filter (\<lambda>z. z \<le> c \<and> c < z + 10) nd_zeros of
        [] \<Rightarrow> None
      | z # _ \<Rightarrow> Some (c - z))"

definition is_decimal :: "nat \<Rightarrow> bool" where
  "is_decimal c \<longleftrightarrow> digit_value c \<noteq> None"

text \<open>
  \<^verbatim>\<open>re.match(r"EP-?(\d+)", ep_arg, re.IGNORECASE)\<close>, group 1: the pattern is tried at the
  beginning only and need not reach the end. \<^verbatim>\<open>E\<close> and \<^verbatim>\<open>P\<close> match either case, the hyphen
  is optional, and \<^verbatim>\<open>\d+\<close> takes the longest run of digits.
\<close>

definition ep_match :: "ustring \<Rightarrow> ustring option" where
  "ep_match ep_arg =
     (case ep_arg of
        e # p # rest \<Rightarrow>
          if (e = 69 \<or> e = 101) \<and> (p = 80 \<or> p = 112) then
            (let r = (case rest of c # cs \<Rightarrow> if c = 45 then cs else rest | [] \<Rightarrow> rest);
                 ds = takeWhile is_decimal r
             in if ds = [] then None else Some ds)
          else None
      | _ \<Rightarrow> None)"

text \<open>
  \<^verbatim>\<open>int(s)\<close> on a string of digits. Since Python 3.11 the conversion raises \<^verbatim>\<open>ValueError\<close>
  when the string has more digits than \<^verbatim>\<open>sys.get_int_max_str_digits()\<close> (4300 unless
  configured; 0 means no limit); the limit is the parameter \<open>max_str_digits\<close>.
\<close>

fun digits_value :: "nat \<Rightarrow> ustring \<Rightarrow> py_error + nat" where
  "digits_value acc [] = Inr acc"
| "digits_value acc (c # cs) =
     (case digit_value c of
        None \<Rightarrow> Inl ValueError
      | Some d \<Rightarrow> digits_value (10 * acc + d) cs)"

definition py_int :: "nat \<Rightarrow> ustring \<Rightarrow> py_error + nat" where
  "py_int max_str_digits s =
     (if s = [] \<or> (max_str_digits \<noteq> 0 \<and> max_str_digits < length s) then Inl ValueError
      else digits_value 0 s)"

definition parse_ep_number :: "nat \<Rightarrow> ustring \<Rightarrow> py_error + nat" where
  "parse_ep_number max_str_digits ep_arg =
     (case ep_match ep_arg of
        None \<Rightarrow> Inl ValueError
      | Some ds \<Rightarrow> py_int max_str_digits ds)"

text \<open>
  The specification's episode tag: \<^verbatim>\<open>EP-NN\<close> with exactly two ASCII digits, and the number
  they denote.
\<close>

definition canonical_tag :: "ustring \<Rightarrow> bool" where
  "canonical_tag s \<longleftrightarrow>
     (case s of
        [e, p, h, d1, d0] \<Rightarrow>
          e = 69 \<and> p = 80 \<and> h = 45 \<and> 48 \<le> d1 \<and> d1 \<le> 57 \<and> 48 \<le> d0 \<and> d0 \<le> 57
      | _ \<Rightarrow> False)"

subsection \<open>The ending hook of the previous episode\<close>

fun decimal :: "nat \<Rightarrow> ustring" where
  "decimal n = (if n < 10 then [48 + n] else decimal (n div 10) @ [48 + n mod 10])"

declare decimal.simps [simp del]

text \<open>\<^verbatim>\<open>f"EP-{n:02d}"\<close> for \<open>n \<ge> 0\<close>: at least two digits, padded with zeros.\<close>

definition ep_tag :: "nat \<Rightarrow> ustring" where
  "ep_tag n = ascii ''EP-'' @ replicate (2 - length (decimal n)) 48 @ decimal n"

text \<open>The literal \<^verbatim>\<open>### EP-NN:\<close> that opens the block of episode \<open>n\<close>.\<close>

definition block_heading :: "nat \<Rightarrow> ustring" where
  "block_heading n = ascii ''### '' @ ep_tag n @ ascii '':''"

text \<open>
  The lookahead \<^verbatim>\<open>(?=\n### EP-|\n---|\Z)\<close> that ends an episode block.
\<close>

definition block_stop :: "ustring \<Rightarrow> bool" where
  "block_stop s \<longleftrightarrow>
     startswith (NL # ascii ''### EP-'') s \<or> startswith (NL # ascii ''---'') s \<or> s = []"

text \<open>
  One attempt of a pattern \<^verbatim>\<open>lit(.+?)(?=stop)\<close> at the beginning of \<open>s\<close>, group 1: the
  literal, then at least one character, then as few more as reach a position where the
  lookahead holds.
\<close>

definition section_match :: "ustring \<Rightarrow> (ustring \<Rightarrow> bool) \<Rightarrow> ustring \<Rightarrow> ustring option" where
  "section_match lit stop s =
     (if startswith lit s then
        (case drop (length lit) s of
           [] \<Rightarrow> None
         | c # cs \<Rightarrow> Some (c # lazy_until stop cs))
      else None)"

text \<open>The label \<^verbatim>\<open>**...**:\<close> of the ending hook, with the colon of the pattern.\<close>

definition hook_label :: ustring where
  "hook_label = ascii ''**'' @ [0xC5D4, 0xB529, SP, 0xD6C5] @ ascii ''**:''"

text \<open>The alternatives \<^verbatim>\<open>(?:\n\n|\n-|\Z)\<close> that end the hook.\<close>

definition hook_stop :: "ustring \<Rightarrow> bool" where
  "hook_stop s \<longleftrightarrow> startswith [NL, NL] s \<or> startswith [NL, 45] s \<or> s = []"

text \<open>
  One attempt of \<^verbatim>\<open>label:\s*(.+?)(?:\n\n|\n-|\Z)\<close> at the beginning of \<open>s\<close>, group 1. The
  greedy \<^verbatim>\<open>\s*\<close> takes all the whitespace after the label. When something is left, the
  group starts there. When nothing is left, \<^verbatim>\<open>\s*\<close> gives its last character back to the
  group, which then ends at the end of the text; without any whitespace the attempt fails.
\<close>

definition hook_match :: "ustring \<Rightarrow> ustring option" where
  "hook_match s =
     (if startswith hook_label s then
        (let rest = drop (length hook_label) s;
             w = takeWhile py_isspace rest
         in case dropWhile py_isspace rest of
              c # cs \<Rightarrow> Some (c # lazy_until hook_stop cs)
            | [] \<Rightarrow> if w = [] then None else Some [last w])
      else None)"

text \<open>
  The field \<^verbatim>\<open>prev_ending_hook\<close> of \<^verbatim>\<open>extract_ep_outline\<close>; the episode number is a
  Python \<^verbatim>\<open>int\<close>.
\<close>

definition prev_ending_hook :: "ustring \<Rightarrow> int \<Rightarrow> ustring" where
  "prev_ending_hook text ep_num =
     (if ep_num > 1 then
        (case re_search (section_match (block_heading (nat (ep_num - 1))) block_stop) text of
           None \<Rightarrow> []
         | Some block \<Rightarrow>
             (case re_search hook_match block of
                None \<Rightarrow> []
              | Some hook \<Rightarrow> strip hook))
      else [])"

subsection \<open>Character and world sections\<close>

definition WORLD_KEYWORDS :: "(string \<times> ustring list \<times> ustring list) list" where
  "WORLD_KEYWORDS =
    [(''energy'',
      [[0xC804, 0xD22C],
       [0xB9C8, 0xB098],
       [0xAE30, 0xC6B4],
       [0xD3ED, 0xC8FC],
       [0xB9C8, 0xBC95],
       [0xC5D0, 0xB108, 0xC9C0],
       [0xC11C, 0xD074],
       [0xACF5, 0xACA9],
       [0xBC29, 0xC5B4],
       [0xAC80]],
      [[0xC5D0, 0xB108, 0xC9C0, 0xC6D0, 32, 0xCCB4, 0xACC4],
       [0xC5D0, 0xB108, 0xC9C0, 32, 0xC791, 0xC6A9, 32, 0xC6D0, 0xB9AC],
       [0xC548, 0xC815, 0xD654, 32, 0xB9E4, 0xAC1C, 0xCCB4],
       [0xB9C8, 0xB098, 32, 0xC6B4, 0xC6A9, 32, 0xBA54, 0xCEE4, 0xB2C8, 0xC998],
       [0xB9C8, 0xBC95, 32, 0xBD84, 0xB958, 32, 0xCCB4, 0xACC4],
       [0xC2E4, 0xC804, 32, 0xB9C8, 0xBC95, 32, 0xC6B4, 0xC6A9]]),
     (''geography'',
      [[0xB8E8, 0xBBF8, 0xB098, 0xB9AC, 0xC544],
       [0xC544, 0xC2A4, 0xD2B8, 0xB77C],
       [0xD06C, 0xB860, 0xD558, 0xC784],
       [0xC2E4, 0xBC14, 0xB80C],
       [0xC218, 0xB3C4],
       [0xB3C4, 0xC2DC],
       [0xC232],
       [0xC0B0, 0xB9E5],
       [0xB3D9, 0xAD74]],
      [[0xC0AC, 0xD68C, 47, 0xAC70, 0xC810],
       [0xC9C0, 0xB9AC, 32, 0xAC1C, 0xC694],
       [0xAC70, 0xC810, 47, 0xAE30, 0xAD00, 32, 0xC774, 0xC911, 32, 0xAD6C, 0xC870]]),
     (''integration'',
      [[0xB610, 0xC544, 0xB9AC],
       [0xD1B5, 0xD569],
       [0xC870, 0xC728],
       [0xB3D9, 0xC801],
       [0xAF2C, 0xAE30],
       [51, 0xC5D0, 0xB108, 0xC9C0],
       [0xD574, 0xCCB4]],
      [[0xC5D0, 0xB108, 0xC9C0, 32, 0xD1B5, 0xD569, 32, 0xC774, 0xB860],
       [0xB610, 0xC544, 0xB9AC, 32, 0xC870, 0xC728],
       [0xB3D9, 0xC801, 32, 0xC870, 0xC728]]),
     (''politics'',
      [[0xC655, 0xC2E4],
       [0xACAC, 0xC81C, 0xD30C],
       [0xC2EC, 0xC0AC],
       [0xCE74, 0xB974, 0xB9C8],
       [0xC815, 0xCE58],
       [0xC655, 0xAC00],
       [0xB9F9, 0xC57D]],
      [[0xC655, 0xAC00, 45, 0xC5D4, 0xD0C0, 0xB9AC, 0xC2A4, 32, 0xAD00, 0xACC4],
       [0xC655, 0xB9BD, 32, 0xCD08, 0xB2A5, 0xB825, 0xC6D0]]),
     (''dragon'',
      [[0xB4DC, 0xB798, 0xACE4],
       [0xCF54, 0xC624, 0xB9AC],
       [0xD638, 0xB178, 0xC624],
       [0xB4DC, 0xB798, 0xACE0, 0xB2C8, 0xC548],
       [0xD3F4, 0xB9AC, 0xBAA8, 0xD504]],
      [[0xB4DC, 0xB798, 0xACE0, 0xB2C8, 0xC548],
       [0xB4DC, 0xB798, 0xACE4, 32, 0xC0AC, 0xD68C, 32, 0xADDC, 0xCE59]]),
     (''circle'',
      [],
      [[0xC11C, 0xD074, 32, 0xCCB4, 0xACC4]])]"

definition CHARACTER_NAMES :: "(ustring \<times> ustring) list" where
  "CHARACTER_NAMES =
    [([0xC0AC, 0xC77C, 0xB77C, 0xC988],
      [0xC0AC, 0xC77C, 0xB77C, 0xC988, 32, 0xC5D4, 0xD0C0, 0xB9AC, 0xC2A4]),
     ([0xB9C8, 0xC77C, 0xC2A4],
      [0xB9C8, 0xC77C, 0xC2A4, 32, 0xC5D4, 0xD0C0, 0xB9AC, 0xC2A4]),
     ([0xCE74, 0xB974, 0xB9C8],
      [0xCE74, 0xB974, 0xB9C8, 32, 0xC5D4, 0xD0C0, 0xB9AC, 0xC2A4]),
     ([0xC18C, 0xD53C, 0xC544],
      [0xC18C, 0xD53C, 0xC544]),
     ([0xCF54, 0xC624, 0xB9AC],
      [0xCE20, 0xBA54, 0xD0C0, 0xC774, 32, 0xCF54, 0xC624, 0xB9AC]),
     ([0xC54C, 0xB4DC, 0xB9AD],
      [0xC54C, 0xB4DC, 0xB9AD, 32, 0xC544, 0xC6B0, 0xB810, 0xB9AC, 0xC2A4]),
     ([0xB8E8, 0xC2DC, 0xC548],
      [0xB8E8, 0xC2DC, 0xC548, 32, 0xC544, 0xC6B0, 0xB810, 0xB9AC, 0xC2A4])]"

text \<open>The line \<^verbatim>\<open>[... ]\<close> that replaces the cut part of a section.\<close>

definition elision_marker :: ustring where
  "elision_marker = ascii ''[... '' @ [0xC774, 0xD558, SP, 0xC0DD, 0xB7B5] @ ascii '']''"

text \<open>Keep the first \<open>limit\<close> lines of a section that has more, and add the marker.\<close>

definition truncate_section :: "nat \<Rightarrow> ustring \<Rightarrow> ustring" where
  "truncate_section limit section =
     (let lines = split_nl section
      in if length lines > limit then join [NL] (take limit lines) @ NL # elision_marker
         else section)"

text \<open>The lookaheads \<^verbatim>\<open>(?=\n## |\Z)\<close> and \<^verbatim>\<open>(?=\n### |\n## |\Z)\<close>.\<close>

definition character_stop :: "ustring \<Rightarrow> bool" where
  "character_stop s \<longleftrightarrow> startswith (NL # ascii ''## '') s \<or> s = []"

definition world_stop :: "ustring \<Rightarrow> bool" where
  "world_stop s \<longleftrightarrow>
     startswith (NL # ascii ''### '') s \<or> startswith (NL # ascii ''## '') s \<or> s = []"

definition default_character :: ustring where
  "default_character = [0xC0AC, 0xC77C, 0xB77C, 0xC988, SP, 0xC5D4, 0xD0C0, 0xB9AC, 0xC2A4]"

definition mentioned :: "ustring \<Rightarrow> ustring list" where
  "mentioned outline =
     (let m = map snd (filter (\<lambda>(name, section_header). contains name outline) CHARACTER_NAMES)
      in if m = [] then [default_character] else m)"

text \<open>The list \<^verbatim>\<open>extracted\<close> of \<^verbatim>\<open>extract_characters\<close>, and the string it returns.\<close>

definition characters_extracted :: "ustring \<Rightarrow> ustring \<Rightarrow> ustring list" where
  "characters_extracted text outline =
     List.map_filter
       (\<lambda>header.
          case re_search (section_match (ascii ''## '' @ header) character_stop) text of
            None \<Rightarrow> None
          | Some g \<Rightarrow> Some (truncate_section 80 (ascii ''## '' @ header @ g)))
       (mentioned outline)"

definition extract_characters :: "ustring \<Rightarrow> ustring \<Rightarrow> ustring" where
  "extract_characters text outline = join [NL, NL] (characters_extracted text outline)"

text \<open>\<^verbatim>\<open>WORLD_KEYWORDS["circle"]["sections"]\<close>; the key is in the table.\<close>

definition circle_sections :: "ustring list" where
  "circle_sections = (case map_of WORLD_KEYWORDS ''circle'' of Some config \<Rightarrow> snd config | None \<Rightarrow> [])"

text \<open>
  The set \<^verbatim>\<open>needed_sections\<close> of \<^verbatim>\<open>extract_world_sections\<close>: the sections of
  \<^verbatim>\<open>circle\<close>, then those of every category one of whose keywords occurs in the outline.
\<close>

definition needed_sections :: "ustring \<Rightarrow> ustring set" where
  "needed_sections outline =
     fold (\<lambda>(category, keywords, sections) needed.
             if list_ex (\<lambda>keyword. contains keyword outline) keywords
             then needed \<union> set sections else needed)
          WORLD_KEYWORDS (set circle_sections)"

text \<open>
  The list \<^verbatim>\<open>extracted\<close> of \<^verbatim>\<open>extract_world_sections\<close>. Python iterates over the set
  \<^verbatim>\<open>needed_sections\<close> in an order it does not specify; \<open>names\<close> is that order.
\<close>

definition world_extracted :: "ustring \<Rightarrow> ustring list \<Rightarrow> ustring list" where
  "world_extracted text names =
     List.map_filter
       (\<lambda>section_name.
          case re_search (section_match (ascii ''### '' @ section_name) world_stop) text of
            None \<Rightarrow> None
          | Some g \<Rightarrow> Some (truncate_section 60 (ascii ''### '' @ section_name @ g)))
       names"

definition iteration_order :: "ustring set \<Rightarrow> ustring list \<Rightarrow> bool" where
  "iteration_order S names \<longleftrightarrow> set names = S \<and> distinct names"

definition extract_world_sections :: "ustring \<Rightarrow> ustring list \<Rightarrow> ustring" where
  "extract_world_sections text names = join [NL, NL] (world_extracted text names)"

subsection \<open>Notions used to state the run detector's result\<close>

text \<open>The number of \<open>PAST\<close> entries at the end of a sequence.\<close>

definition trailing_past :: "category list \<Rightarrow> nat" where
  "trailing_past pre = length (takeWhile (\<lambda>c. c = PAST) (rev pre))"

text \<open>
  The maximal runs of at least three entries, and those of them that end before the end of
  the sequence.
\<close>

definition long_runs :: "category list \<Rightarrow> (nat \<times> nat) set" where
  "long_runs cats = {(s, l). maximal_past_run cats s l \<and> 3 \<le> l}"

definition closed_runs :: "category list \<Rightarrow> (nat \<times> nat) set" where
  "closed_runs cats = {(s, l). maximal_past_run cats s l \<and> 3 \<le> l \<and> s + l < length cats}"

text \<open>The samples that a group over the texts must carry.\<close>

definition samples_ok :: "ustring list \<Rightarrow> violation_group \<Rightarrow> bool" where
  "samples_ok sentence_texts g \<longleftrightarrow>
     0 \<le> g_start g \<and>
     g_samples g =
       map (\<lambda>j. last30 (sentence_texts ! j))
         [nat (g_start g)..<nat (g_start g) + min (g_length g) 3]"

text \<open>
  The invariant of the loop after the entries \<open>pre\<close>: \<^verbatim>\<open>consecutive\<close> counts the entries of
  the open run, \<^verbatim>\<open>start\<close> is where it began, and the groups are those of the closed runs,
  in order.
\<close>

definition scan_inv ::
  "ustring list \<Rightarrow> category list \<Rightarrow> int \<times> nat \<times> violation_group list \<Rightarrow> bool" where
  "scan_inv sentence_texts pre st \<longleftrightarrow>
     (case st of (start, consecutive, groups) \<Rightarrow>
        consecutive = trailing_past pre \<and>
        (0 < consecutive \<longrightarrow> start = int (length pre - consecutive)) \<and>
        (\<forall>g \<in> set groups. samples_ok sentence_texts g) \<and>
        sorted_wrt (<) (map g_start groups) \<and>
        set (map group_span groups) = (\<lambda>(s, l). (int s, l)) ` closed_runs pre)"

subsection \<open>Notions used to state what the hook extractor returns\<close>

text \<open>
  In \<open>pre @ lit @ rest\<close> the literal does not begin at any position inside \<open>pre\<close>: the
  occurrence after \<open>pre\<close> is the first.
\<close>

definition first_occurrence :: "ustring \<Rightarrow> ustring \<Rightarrow> ustring \<Rightarrow> bool" where
  "first_occurrence lit pre rest \<longleftrightarrow>
     (\<forall>i \<in> {0..<length pre}. \<not> startswith lit (drop i (pre @ lit @ rest)))"

text \<open>
  In \<open>body @ rest\<close> the stop pattern matches where \<open>rest\<close> begins and at no position
  inside \<open>body\<close> after its first character.
\<close>

definition ends_at :: "(ustring \<Rightarrow> bool) \<Rightarrow> ustring \<Rightarrow> ustring \<Rightarrow> bool" where
  "ends_at stop body rest \<longleftrightarrow>
     stop rest \<and> (\<forall>i \<in> {1..<length body}. \<not> stop (drop i (body @ rest)))"

section \<open>Lemmas on strings\<close>

lemma startswith_Cons:
  "startswith (a # p) s \<longleftrightarrow> s \<noteq> [] \<and> hd s = a \<and> startswith p (tl s)"
  by (cases s) (auto simp: startswith_def)

lemma startswith_append_self: "startswith p (p @ s)"
  by (simp add: startswith_def)

lemma split_nl_nonempty: "split_nl s \<noteq> []"
  by (induction s) (auto split: list.splits)

lemma split_nl_no_nl: "NL \<notin> set s \<Longrightarrow> split_nl s = [s]"
  by (induction s) auto

lemma split_nl_append:
  "NL \<notin> set xs \<Longrightarrow> split_nl (xs @ NL # ys) = xs # split_nl ys"
  by (induction xs) auto

lemma split_nl_lines_no_nl: "l \<in> set (split_nl s) \<Longrightarrow> NL \<notin> set l"
  by (induction s arbitrary: l) (auto split: if_splits list.splits)

lemma split_nl_replicate: "split_nl (replicate n NL) = replicate (Suc n) []"
  by (induction n) auto

lemma join_snoc: "ls \<noteq> [] \<Longrightarrow> join sep (ls @ [m]) = join sep ls @ sep @ m"
  by (induction sep ls rule: join.induct) auto

lemma split_nl_join:
  "ls \<noteq> [] \<Longrightarrow> \<forall>l \<in> set ls. NL \<notin> set l \<Longrightarrow> split_nl (join [NL] ls) = ls"
proof (induction "[NL]" ls rule: join.induct)
  case 1
  then show ?case by simp
next
  case (2 l)
  then show ?case by (simp add: split_nl_no_nl)
next
  case (3 l v va)
  then show ?case by (simp add: split_nl_append)
qed

lemma rstrip_snoc_space: "py_isspace c \<Longrightarrow> rstrip (xs @ [c]) = rstrip xs"
  by (simp add: rstrip_def)

lemma rstrip_keep: "xs \<noteq> [] \<Longrightarrow> \<not> py_isspace (last xs) \<Longrightarrow> rstrip xs = xs"
  by (cases xs rule: rev_cases) (auto simp: rstrip_def)

lemma lstrip_keep: "xs \<noteq> [] \<Longrightarrow> \<not> py_isspace (hd xs) \<Longrightarrow> lstrip xs = xs"
  by (cases xs) (auto simp: lstrip_def)

lemma strip_keep:
  "xs \<noteq> [] \<Longrightarrow> \<not> py_isspace (hd xs) \<Longrightarrow> \<not> py_isspace (last xs) \<Longrightarrow> strip xs = xs"
  by (simp add: strip_def rstrip_keep lstrip_keep)

lemma strip_snoc_space: "py_isspace c \<Longrightarrow> strip (xs @ [c]) = strip xs"
  by (simp add: strip_def rstrip_snoc_space)

lemma takeWhile_run:
  assumes "\<forall>c \<in> set ds. P c" "rest = [] \<or> \<not> P (hd rest)"
  shows "takeWhile P (ds @ rest) = ds"
proof -
  have "takeWhile P rest = []" using assms(2) by (cases rest) auto
  with assms(1) show ?thesis by (simp add: takeWhile_append2)
qed

section \<open>Properties of the sentence-ending classifier\<close>

lemma classify_ending_short:
  "length (rstrip_chars ending_punct s) < 2 \<Longrightarrow> classify_ending s = NON_DA"
  by (simp add: classify_ending_def Let_def)

lemma classify_ending_not_da:
  assumes "rstrip_chars ending_punct s \<noteq> []" "last (rstrip_chars ending_punct s) \<noteq> DA"
  shows "classify_ending s = NON_DA"
  using assms by (simp add: classify_ending_def Let_def last_conv_nth)

lemma classify_ending_prev:
  assumes "rstrip_chars ending_punct s = xs @ [p, DA]"
  shows "classify_ending s =
     (if int p - 0xAC00 < 0 \<or> int p - 0xAC00 > 11171 \<or> (int p - 0xAC00) mod 28 \<noteq> 20
      then OTHER_DA
      else if p = ISS \<or> p = GESS then OTHER_DA
      else PAST)"
  using assms
  by (simp add: classify_ending_def Let_def has_ssang_siot_batchim_def nth_append)

text \<open>
  Claim C1, as amended. Let \<open>clean\<close> be the unit without its trailing \<^verbatim>\<open>.\<close>, \<^verbatim>\<open>!\<close>, \<^verbatim>\<open>?\<close>,
  spaces and tabs. The classifier returns \<open>NON_DA\<close> when \<open>clean\<close> has fewer than two
  characters or does not end in U+B2E4. When \<open>clean\<close> ends in a character \<open>p\<close> followed by
  U+B2E4, it returns \<open>OTHER_DA\<close> if \<open>ord p - 0xAC00\<close> is outside \<open>[0, 11171]\<close> or is not 20
  modulo 28, \<open>OTHER_DA\<close> if \<open>p\<close> is U+C788 or U+ACA0, and \<open>PAST\<close> in every other case. The
  result is one of the three categories.
\<close>

theorem classify_ending_cases:
  "(length (rstrip_chars ending_punct s) < 2 \<or> last (rstrip_chars ending_punct s) \<noteq> DA
      \<longrightarrow> classify_ending s = NON_DA) \<and>
   (\<forall>xs p. rstrip_chars ending_punct s = xs @ [p, DA] \<longrightarrow>
      classify_ending s =
        (if int p - 0xAC00 < 0 \<or> int p - 0xAC00 > 11171 \<or> (int p - 0xAC00) mod 28 \<noteq> 20
         then OTHER_DA
         else if p = ISS \<or> p = GESS then OTHER_DA
         else PAST)) \<and>
   classify_ending s \<in> {PAST, OTHER_DA, NON_DA}"
proof (intro conjI allI impI)
  assume a: "length (rstrip_chars ending_punct s) < 2 \<or> last (rstrip_chars ending_punct s) \<noteq> DA"
  show "classify_ending s = NON_DA"
  proof (cases "length (rstrip_chars ending_punct s) < 2")
    case True
    then show ?thesis by (rule classify_ending_short)
  next
    case False
    then have "rstrip_chars ending_punct s \<noteq> []" by auto
    moreover from a False have "last (rstrip_chars ending_punct s) \<noteq> DA" by simp
    ultimately show ?thesis by (rule classify_ending_not_da)
  qed
next
  fix xs p
  assume "rstrip_chars ending_punct s = xs @ [p, DA]"
  then show "classify_ending s =
        (if int p - 0xAC00 < 0 \<or> int p - 0xAC00 > 11171 \<or> (int p - 0xAC00) mod 28 \<noteq> 20
         then OTHER_DA
         else if p = ISS \<or> p = GESS then OTHER_DA
         else PAST)"
    by (rule classify_ending_prev)
next
  show "classify_ending s \<in> {PAST, OTHER_DA, NON_DA}"
    by (cases "classify_ending s") simp_all
qed

text \<open>
  The theorem at the unit U+C2F8 U+C6E0 U+B2E4 \<^verbatim>\<open>.\<close>: the character before the final
  U+B2E4 is U+C6E0, whose offset 6880 is 20 modulo 28, so the unit is \<open>PAST\<close>.
\<close>

theorem classify_ending_cases_witness:
  "rstrip_chars ending_punct [0xC2F8, 0xC6E0, DA, 46] = [0xC2F8] @ [0xC6E0, DA] \<and>
   classify_ending [0xC2F8, 0xC6E0, DA, 46] = PAST"
proof -
  have clean: "rstrip_chars ending_punct [0xC2F8, 0xC6E0, DA, 46] = [0xC2F8] @ [0xC6E0, DA]"
    by (simp add: rstrip_chars_def ending_punct_def DA_def)
  from classify_ending_cases [of "[0xC2F8, 0xC6E0, DA, 46]"] clean
  have "classify_ending [0xC2F8, 0xC6E0, DA, 46] =
        (if int 0xC6E0 - 0xAC00 < 0 \<or> int 0xC6E0 - 0xAC00 > 11171
            \<or> (int 0xC6E0 - 0xAC00) mod 28 \<noteq> 20
         then OTHER_DA
         else if (0xC6E0 :: nat) = ISS \<or> (0xC6E0 :: nat) = GESS then OTHER_DA
         else PAST)"
    by blast
  then have "classify_ending [0xC2F8, 0xC6E0, DA, 46] = PAST"
    by (simp add: ISS_def GESS_def)
  with clean show ?thesis by simp
qed

text \<open>
  Claim C1 as stated fails at the unit U+B2E4 \<^verbatim>\<open>.\<close>: its cleaned form ends in U+B2E4,
  where the claim lets the result be \<open>OTHER_DA\<close> or \<open>PAST\<close> only, and the classifier
  returns \<open>NON_DA\<close>, since the guard \<^verbatim>\<open>len(clean) >= 2\<close> fails.
\<close>

theorem classify_ending_lone_da_counterexample:
  "rstrip_chars ending_punct [DA, 46] \<noteq> [] \<and>
   last (rstrip_chars ending_punct [DA, 46]) = DA \<and>
   classify_ending [DA, 46] = NON_DA \<and>
   classify_ending [DA, 46] \<notin> {OTHER_DA, PAST}"
  by (simp add: classify_ending_def rstrip_chars_def ending_punct_def DA_def)

text \<open>
  Claim C3, as amended. The classifier maps the unit U+ADF8 U+B294 U+0020 U+C2F8 U+C6E0
  U+B2E4 \<^verbatim>\<open>.\<close> to \<open>PAST\<close>, the unit U+ADF8 U+B294 U+0020 U+C2F8 U+C6B4 U+B2E4 \<^verbatim>\<open>.\<close> to
  \<open>OTHER_DA\<close>, and the unit U+ADF8 U+AC00 U+0020 U+C788 U+C5C8 U+B2E4 \<^verbatim>\<open>.\<close> to \<open>PAST\<close>: the
  syllable before its final U+B2E4 is U+C5C8, which ends in the double consonant and is
  not one of the two exceptions.
\<close>

theorem classify_ending_literals:
  "classify_ending [0xADF8, 0xB294, 0x20, 0xC2F8, 0xC6E0, 0xB2E4, 0x2E] = PAST \<and>
   classify_ending [0xADF8, 0xB294, 0x20, 0xC2F8, 0xC6B4, 0xB2E4, 0x2E] = OTHER_DA \<and>
   classify_ending [0xADF8, 0xAC00, 0x20, 0xC788, 0xC5C8, 0xB2E4, 0x2E] = PAST"
  by (simp add: classify_ending_def rstrip_chars_def ending_punct_def DA_def ISS_def GESS_def
      has_ssang_siot_batchim_def)

text \<open>
  Claim C3 as stated fails at its third literal: the classifier does not return
  \<open>OTHER_DA\<close> for U+ADF8 U+AC00 U+0020 U+C788 U+C5C8 U+B2E4 \<^verbatim>\<open>.\<close>.
\<close>

theorem classify_ending_isseotda_counterexample:
  "classify_ending [0xADF8, 0xAC00, 0x20, 0xC788, 0xC5C8, 0xB2E4, 0x2E] \<noteq> OTHER_DA"
  by (simp add: classify_ending_def rstrip_chars_def ending_punct_def DA_def ISS_def GESS_def
      has_ssang_siot_batchim_def)

text \<open>
  Claim C9. A unit whose form without trailing \<^verbatim>\<open>.\<close>, \<^verbatim>\<open>!\<close>, \<^verbatim>\<open>?\<close>, spaces and tabs has
  fewer than two characters is \<open>NON_DA\<close>, the single character U+B2E4 included.
\<close>

theorem classify_ending_fewer_than_two:
  "length (rstrip_chars ending_punct s) < 2 \<Longrightarrow> classify_ending s = NON_DA"
  by (simp add: classify_ending_def Let_def)

text \<open>The unit that is the single character U+B2E4 ends in it and is \<open>NON_DA\<close>.\<close>

theorem classify_ending_fewer_than_two_witness:
  "length (rstrip_chars ending_punct [DA]) < 2 \<and> last (rstrip_chars ending_punct [DA]) = DA \<and>
   classify_ending [DA] = NON_DA"
proof -
  have clean: "rstrip_chars ending_punct [DA] = [DA]"
    by (simp add: rstrip_chars_def ending_punct_def DA_def)
  then have short: "length (rstrip_chars ending_punct [DA]) < 2" by simp
  from classify_ending_fewer_than_two [OF short] clean short show ?thesis by simp
qed

section \<open>Properties of the checks F1 and F2\<close>

lemma strip_replicate: "0 < n \<Longrightarrow> strip (replicate n 0xAC00) = replicate n 0xAC00"
  by (rule strip_keep) (auto simp: py_isspace_def last_replicate hd_replicate)

lemma replicate_not_rule: "0 < n \<Longrightarrow> replicate n 0xAC00 \<noteq> ascii ''---''"
  by (cases n) (auto simp: ascii_def)

lemma body_lines_plain:
  assumes "0 < n" "strip (replicate n 0xAC00 @ ws) = replicate n 0xAC00"
  shows "body_lines True [replicate n 0xAC00 @ ws] = [replicate n 0xAC00 @ ws]"
  using assms replicate_not_rule[of n]
  by (simp add: Let_def startswith_Cons ascii_def preview_label_def preview_label_nospace_def
      is_img_line_def)

text \<open>
  The body of a draft that is a separator line followed by one line of \<open>n\<close> copies of
  U+AC00 and some trailing whitespace \<open>ws\<close> is that line, whitespace included.
\<close>

lemma extract_body_plain:
  assumes "0 < n" "strip (replicate n 0xAC00 @ ws) = replicate n 0xAC00" "NL \<notin> set ws"
  shows "extract_body (ascii ''---'' @ NL # replicate n 0xAC00 @ ws) = replicate n 0xAC00 @ ws"
proof -
  have "split_nl (ascii ''---'' @ NL # replicate n 0xAC00 @ ws) =
        [ascii ''---'', replicate n 0xAC00 @ ws]"
    using assms(3) by (simp add: split_nl_append split_nl_no_nl ascii_def)
  moreover have "strip (ascii ''---'') = ascii ''---''"
    by (rule strip_keep) (simp_all add: ascii_def py_isspace_def)
  moreover have "\<not> startswith (ascii ''# EP-'') (ascii ''---'')"
    "\<not> startswith (ascii ''>'') (ascii ''---'')"
    by (simp_all add: ascii_def startswith_def)
  ultimately show ?thesis
    using body_lines_plain[OF assms(1,2)] by (simp add: extract_body_def Let_def)
qed

lemma char_count_filter:
  "char_count text = length (filter (\<lambda>c. c \<noteq> NL \<and> c \<noteq> SP) (extract_body text))"
  by (simp add: char_count_def remove_char_def conj_commute)

lemma py_isspace_nl_sp: "py_isspace NL" "py_isspace SP"
  by (simp_all add: py_isspace_def)

lemma whitespace_stripped_count_eq:
  assumes "\<forall>c \<in> set body. py_isspace c \<longrightarrow> c = SP \<or> c = NL"
  shows "length (filter (\<lambda>c. c \<noteq> NL \<and> c \<noteq> SP) body) = whitespace_stripped_count body"
proof -
  have "(c \<noteq> NL \<and> c \<noteq> SP) = (\<not> py_isspace c)" if "c \<in> set body" for c
    using that assms py_isspace_nl_sp by blast
  then have "filter (\<lambda>c. c \<noteq> NL \<and> c \<noteq> SP) body = filter (\<lambda>c. \<not> py_isspace c) body"
    by (intro filter_cong) auto
  then show ?thesis by (simp add: whitespace_stripped_count_def)
qed

text \<open>
  Claim C4, as amended. For every draft text, F1 reports \<open>PASS\<close> if and only if the number
  of characters of the derived body other than the space U+0020 and the newline U+000A
  lies within \<open>[9000, 11000]\<close>, both endpoints inclusive: a count of exactly 9000 or 11000
  passes, and 8999 or 11001 fails. That number is the whitespace-stripped count when the
  body has no whitespace other than spaces and newlines.
\<close>

theorem check_f1_char_count_bounds:
  "char_count text = length (filter (\<lambda>c. c \<noteq> NL \<and> c \<noteq> SP) (extract_body text)) \<and>
   val (check_f1_char_count text) = char_count text \<and>
   (result (check_f1_char_count text) = PASS \<longleftrightarrow>
      9000 \<le> char_count text \<and> char_count text \<le> 11000) \<and>
   (char_count text = 9000 \<or> char_count text = 11000 \<longrightarrow>
      result (check_f1_char_count text) = PASS) \<and>
   (char_count text = 8999 \<or> char_count text = 11001 \<longrightarrow>
      result (check_f1_char_count text) = FAIL) \<and>
   ((\<forall>c \<in> set (extract_body text). py_isspace c \<longrightarrow> c = SP \<or> c = NL) \<longrightarrow>
      char_count text = whitespace_stripped_count (extract_body text))"
proof (intro conjI impI)
  show "char_count text = length (filter (\<lambda>c. c \<noteq> NL \<and> c \<noteq> SP) (extract_body text))"
    by (rule char_count_filter)
  show "val (check_f1_char_count text) = char_count text"
    by (simp add: check_f1_char_count_def Let_def)
  show "result (check_f1_char_count text) = PASS \<longleftrightarrow>
      9000 \<le> char_count text \<and> char_count text \<le> 11000"
    by (simp add: check_f1_char_count_def Let_def)
  show "result (check_f1_char_count text) = PASS"
    if "char_count text = 9000 \<or> char_count text = 11000"
    using that by (auto simp: check_f1_char_count_def Let_def)
  show "result (check_f1_char_count text) = FAIL"
    if "char_count text = 8999 \<or> char_count text = 11001"
    using that by (auto simp: check_f1_char_count_def Let_def)
  show "char_count text = whitespace_stripped_count (extract_body text)"
    if "\<forall>c \<in> set (extract_body text). py_isspace c \<longrightarrow> c = SP \<or> c = NL"
    using that by (simp add: char_count_filter whitespace_stripped_count_eq)
qed

text \<open>
  The theorem at the draft that is a separator line and a line of 9000 copies of U+AC00:
  the count is 9000, which is also the whitespace-stripped count, and F1 passes.
\<close>

theorem check_f1_char_count_bounds_witness:
  "char_count (ascii ''---'' @ NL # replicate 9000 0xAC00) = 9000 \<and>
   result (check_f1_char_count (ascii ''---'' @ NL # replicate 9000 0xAC00)) = PASS \<and>
   whitespace_stripped_count (extract_body (ascii ''---'' @ NL # replicate 9000 0xAC00)) = 9000"
proof -
  let ?t = "ascii ''---'' @ NL # replicate 9000 0xAC00"
  have "strip (replicate 9000 0xAC00 @ []) = replicate 9000 0xAC00"
    by (simp add: strip_replicate)
  then have "extract_body (ascii ''---'' @ NL # replicate 9000 0xAC00 @ []) =
             replicate 9000 0xAC00 @ []"
    by (intro extract_body_plain) simp_all
  then have body: "extract_body ?t = replicate 9000 0xAC00" by simp
  have cc: "char_count ?t = 9000"
    by (simp add: char_count_def remove_char_def body)
  have ws: "\<forall>c \<in> set (extract_body ?t). py_isspace c \<longrightarrow> c = SP \<or> c = NL"
    by (simp add: body py_isspace_def)
  note inst = check_f1_char_count_bounds [of ?t]
  note pass = inst [THEN conjunct2, THEN conjunct2, THEN conjunct2, THEN conjunct1]
  note same = inst [THEN conjunct2, THEN conjunct2, THEN conjunct2, THEN conjunct2, THEN conjunct2]
  from cc have "char_count ?t = 9000 \<or> char_count ?t = 11000" by (rule disjI1)
  with pass have r: "result (check_f1_char_count ?t) = PASS" by (rule mp)
  from same ws have "char_count ?t = whitespace_stripped_count (extract_body ?t)" by (rule mp)
  with cc have w: "whitespace_stripped_count (extract_body ?t) = 9000" by simp
  from cc r w show ?thesis by (intro conjI)
qed

text \<open>
  Claim C4 as stated fails at the draft that is a separator line and a line of 8999 copies
  of U+AC00 followed by a tab: the whitespace-stripped count of its body is 8999, and F1
  passes, since the tab is neither a space nor a newline and is counted.
\<close>

theorem check_f1_tab_counterexample:
  "whitespace_stripped_count
     (extract_body (ascii ''---'' @ NL # replicate 8999 0xAC00 @ [TAB])) = 8999 \<and>
   result (check_f1_char_count (ascii ''---'' @ NL # replicate 8999 0xAC00 @ [TAB])) = PASS"
proof -
  have "strip (replicate 8999 0xAC00 @ [TAB]) = replicate 8999 0xAC00"
    by (simp add: strip_snoc_space py_isspace_def strip_replicate)
  then have "extract_body (ascii ''---'' @ NL # replicate 8999 0xAC00 @ [TAB]) =
             replicate 8999 0xAC00 @ [TAB]"
    by (intro extract_body_plain) simp_all
  then show ?thesis
    by (simp add: whitespace_stripped_count_def check_f1_char_count_def char_count_def
        remove_char_def py_isspace_def)
qed
















section \<open>Properties of episode-number parsing\<close>

lemma not_decimal_hyphen: "\<not> is_decimal 45"
  by (simp add: is_decimal_def digit_value_def nd_zeros_def)

lemma digit_value_ascii: "48 \<le> c \<Longrightarrow> c \<le> 57 \<Longrightarrow> digit_value c = Some (c - 48)"
  by (simp add: digit_value_def nd_zeros_def)

lemma digits_value_foldl:
  "\<forall>c \<in> set ds. is_decimal c \<Longrightarrow>
   digits_value acc ds = Inr (foldl (\<lambda>a c. 10 * a + the (digit_value c)) acc ds)"
  by (induction ds arbitrary: acc) (auto simp: is_decimal_def)

lemma ep_match_decomposed:
  assumes "s = e # p # hy @ ds @ rest" "e = 69 \<or> e = 101" "p = 80 \<or> p = 112"
    "hy = [] \<or> hy = [45]" "ds \<noteq> []" "\<forall>c \<in> set ds. is_decimal c"
    "rest = [] \<or> \<not> is_decimal (hd rest)"
  shows "ep_match s = Some ds"
proof -
  have run: "takeWhile is_decimal (ds @ rest) = ds"
    using assms(6,7) by (rule takeWhile_run)
  from assms(5) obtain d ds' where ds: "ds = d # ds'" by (cases ds) auto
  with assms(6) have "is_decimal d" by simp
  then have d45: "d \<noteq> 45" using not_decimal_hyphen by auto
  from assms(4) show ?thesis
  proof
    assume "hy = []"
    with assms(1,2,3,5) run d45 ds show ?thesis
      by (auto simp: ep_match_def Let_def)
  next
    assume "hy = [45]"
    with assms(1,2,3,5) run show ?thesis
      by (auto simp: ep_match_def Let_def)
  qed
qed

lemma ep_match_Some_decomposed:
  assumes "ep_match s = Some ds"
  shows "\<exists>e p hy rest. s = e # p # hy @ ds @ rest \<and> (e = 69 \<or> e = 101) \<and> (p = 80 \<or> p = 112) \<and>
     (hy = [] \<or> hy = [45]) \<and> ds \<noteq> [] \<and> (\<forall>c \<in> set ds. is_decimal c) \<and>
     (rest = [] \<or> \<not> is_decimal (hd rest))"
proof -
  from assms obtain e p r0 where s: "s = e # p # r0"
    and ep: "(e = 69 \<or> e = 101) \<and> (p = 80 \<or> p = 112)"
    by (auto simp: ep_match_def split: list.splits if_splits)
  define r where "r = (case r0 of c # cs \<Rightarrow> if c = 45 then cs else r0 | [] \<Rightarrow> r0)"
  from assms s ep have ds: "ds = takeWhile is_decimal r" "ds \<noteq> []"
    by (auto simp: ep_match_def Let_def r_def split: if_splits)
  have "\<exists>hy. r0 = hy @ r \<and> (hy = [] \<or> hy = [45])"
    by (auto simp: r_def split: list.splits)
  then obtain hy where hy: "r0 = hy @ r" "hy = [] \<or> hy = [45]" by blast
  have r: "r = ds @ dropWhile is_decimal r" by (simp add: ds)
  have all: "\<forall>c \<in> set ds. is_decimal c"
    unfolding ds by (auto dest: set_takeWhileD)
  have rest: "dropWhile is_decimal r = [] \<or> \<not> is_decimal (hd (dropWhile is_decimal r))"
    by (metis hd_dropWhile)
  from s hy r have "s = e # p # hy @ ds @ dropWhile is_decimal r" by simp
  with ep hy(2) ds(2) all rest show ?thesis by blast
qed

lemma ep_match_digits:
  "ep_match s = Some ds \<Longrightarrow> ds \<noteq> [] \<and> (\<forall>c \<in> set ds. is_decimal c)"
  using ep_match_Some_decomposed by blast

lemma parse_ep_number_error_iff:
  "parse_ep_number lim s = Inl ValueError \<longleftrightarrow>
     (case ep_match s of None \<Rightarrow> True | Some ds \<Rightarrow> lim \<noteq> 0 \<and> lim < length ds)"
proof (cases "ep_match s")
  case None
  then show ?thesis by (simp add: parse_ep_number_def)
next
  case (Some ds)
  with ep_match_digits have "ds \<noteq> []" "\<forall>c \<in> set ds. is_decimal c" by blast+
  with Some show ?thesis
    by (simp add: parse_ep_number_def py_int_def digits_value_foldl)
qed

lemma parse_ep_number_value:
  assumes "ep_match s = Some ds" "lim = 0 \<or> length ds \<le> lim"
  shows "parse_ep_number lim s = Inr (foldl (\<lambda>a c. 10 * a + the (digit_value c)) 0 ds)"
proof -
  from assms(1) ep_match_digits have "ds \<noteq> []" "\<forall>c \<in> set ds. is_decimal c" by blast+
  with assms show ?thesis
    by (auto simp: parse_ep_number_def py_int_def digits_value_foldl)
qed

lemma parse_ep_number_canonical:
  assumes "canonical_tag s" "lim = 0 \<or> 2 \<le> lim"
  shows "parse_ep_number lim s = Inr (10 * (s ! 3 - 48) + (s ! 4 - 48))"
proof -
  from assms(1) obtain d1 d0 where s: "s = [69, 80, 45, d1, d0]"
    and d: "48 \<le> d1" "d1 \<le> 57" "48 \<le> d0" "d0 \<le> 57"
    by (auto simp: canonical_tag_def split: list.splits)
  have dec: "is_decimal d1" "is_decimal d0"
    using d by (simp_all add: is_decimal_def digit_value_ascii)
  have "s = 69 # 80 # [45] @ [d1, d0] @ []" by (simp add: s)
  then have "ep_match s = Some [d1, d0]"
    by (rule ep_match_decomposed) (use dec in auto)
  then have "parse_ep_number lim s =
      Inr (foldl (\<lambda>a c. 10 * a + the (digit_value c)) 0 [d1, d0])"
    using assms(2) by (intro parse_ep_number_value) auto
  then show ?thesis using d by (simp add: s digit_value_ascii)
qed

text \<open>
  Claim C8, as amended. Episode-number parsing raises \<^verbatim>\<open>ValueError\<close> if and only if the
  string does not begin with \<^verbatim>\<open>E\<close> or \<^verbatim>\<open>e\<close>, \<^verbatim>\<open>P\<close> or \<^verbatim>\<open>p\<close>, an optional hyphen and at least
  one decimal digit, or the run of digits found there is longer than the runtime's limit
  on integer strings. Whatever follows the digits is ignored. Otherwise it returns the
  number that the whole run of digits denotes; on a canonical tag \<^verbatim>\<open>EP-NN\<close> that is the
  two-digit number \<^verbatim>\<open>NN\<close>.
\<close>

theorem parse_ep_number_cases:
  "(parse_ep_number lim s = Inl ValueError \<longleftrightarrow>
      (case ep_match s of None \<Rightarrow> True | Some ds \<Rightarrow> lim \<noteq> 0 \<and> lim < length ds)) \<and>
   (\<forall>ds. ep_match s = Some ds \<longleftrightarrow>
      (\<exists>e p hy rest. s = e # p # hy @ ds @ rest \<and> (e = 69 \<or> e = 101) \<and> (p = 80 \<or> p = 112) \<and>
         (hy = [] \<or> hy = [45]) \<and> ds \<noteq> [] \<and> (\<forall>c \<in> set ds. is_decimal c) \<and>
         (rest = [] \<or> \<not> is_decimal (hd rest)))) \<and>
   (\<forall>ds. ep_match s = Some ds \<and> (lim = 0 \<or> length ds \<le> lim) \<longrightarrow>
      parse_ep_number lim s = Inr (foldl (\<lambda>a c. 10 * a + the (digit_value c)) 0 ds)) \<and>
   (canonical_tag s \<and> (lim = 0 \<or> 2 \<le> lim) \<longrightarrow>
      parse_ep_number lim s = Inr (10 * (s ! 3 - 48) + (s ! 4 - 48)))"
proof (intro conjI allI impI)
  show "parse_ep_number lim s = Inl ValueError \<longleftrightarrow>
      (case ep_match s of None \<Rightarrow> True | Some ds \<Rightarrow> lim \<noteq> 0 \<and> lim < length ds)"
    by (rule parse_ep_number_error_iff)
next
  fix ds
  show "ep_match s = Some ds \<longleftrightarrow>
      (\<exists>e p hy rest. s = e # p # hy @ ds @ rest \<and> (e = 69 \<or> e = 101) \<and> (p = 80 \<or> p = 112) \<and>
         (hy = [] \<or> hy = [45]) \<and> ds \<noteq> [] \<and> (\<forall>c \<in> set ds. is_decimal c) \<and>
         (rest = [] \<or> \<not> is_decimal (hd rest)))"
  proof
    assume "ep_match s = Some ds"
    then show "\<exists>e p hy rest. s = e # p # hy @ ds @ rest \<and> (e = 69 \<or> e = 101) \<and>
         (p = 80 \<or> p = 112) \<and> (hy = [] \<or> hy = [45]) \<and> ds \<noteq> [] \<and>
         (\<forall>c \<in> set ds. is_decimal c) \<and> (rest = [] \<or> \<not> is_decimal (hd rest))"
      by (rule ep_match_Some_decomposed)
  next
    assume "\<exists>e p hy rest. s = e # p # hy @ ds @ rest \<and> (e = 69 \<or> e = 101) \<and>
         (p = 80 \<or> p = 112) \<and> (hy = [] \<or> hy = [45]) \<and> ds \<noteq> [] \<and>
         (\<forall>c \<in> set ds. is_decimal c) \<and> (rest = [] \<or> \<not> is_decimal (hd rest))"
    then obtain e p hy rest where "s = e # p # hy @ ds @ rest" "e = 69 \<or> e = 101"
      "p = 80 \<or> p = 112" "hy = [] \<or> hy = [45]" "ds \<noteq> []" "\<forall>c \<in> set ds. is_decimal c"
      "rest = [] \<or> \<not> is_decimal (hd rest)"
      by blast
    then show "ep_match s = Some ds" by (rule ep_match_decomposed)
  qed
next
  fix ds
  assume "ep_match s = Some ds \<and> (lim = 0 \<or> length ds \<le> lim)"
  then show "parse_ep_number lim s = Inr (foldl (\<lambda>a c. 10 * a + the (digit_value c)) 0 ds)"
    using parse_ep_number_value by blast
next
  assume "canonical_tag s \<and> (lim = 0 \<or> 2 \<le> lim)"
  then show "parse_ep_number lim s = Inr (10 * (s ! 3 - 48) + (s ! 4 - 48))"
    using parse_ep_number_canonical by blast
qed

text \<open>The theorem at the canonical tag \<^verbatim>\<open>EP-05\<close> under the default limit: the result is 5.\<close>

theorem parse_ep_number_cases_witness:
  "canonical_tag (ascii ''EP-05'') \<and> parse_ep_number 4300 (ascii ''EP-05'') = Inr 5"
proof -
  have c: "canonical_tag (ascii ''EP-05'')"
    by (simp add: canonical_tag_def ascii_def)
  note inst = parse_ep_number_cases [of 4300 "ascii ''EP-05''"]
  note canon = inst [THEN conjunct2, THEN conjunct2, THEN conjunct2]
  have "(4300 :: nat) = 0 \<or> 2 \<le> (4300 :: nat)" by simp
  with c have "canonical_tag (ascii ''EP-05'') \<and> ((4300 :: nat) = 0 \<or> 2 \<le> (4300 :: nat))"
    by (rule conjI)
  with canon have "parse_ep_number 4300 (ascii ''EP-05'') =
      Inr (10 * (ascii ''EP-05'' ! 3 - 48) + (ascii ''EP-05'' ! 4 - 48))"
    by (rule mp)
  then have "parse_ep_number 4300 (ascii ''EP-05'') = Inr 5"
    by (simp add: ascii_def)
  with c show ?thesis by (rule conjI)
qed

text \<open>
  Claim C8 as stated fails at \<^verbatim>\<open>ep5\<close>: the string is not of the canonical form \<^verbatim>\<open>EP-NN\<close>,
  and parsing raises nothing and returns 5.
\<close>

theorem parse_ep_number_lenient_counterexample:
  "\<not> canonical_tag (ascii ''ep5'') \<and> parse_ep_number 4300 (ascii ''ep5'') = Inr 5"
  by (simp add: canonical_tag_def parse_ep_number_def ep_match_def ascii_def is_decimal_def
      digit_value_def nd_zeros_def py_int_def)

section \<open>Properties of the section extractors\<close>

lemma fold_needed_mono:
  "x \<in> A \<Longrightarrow>
   x \<in> fold (\<lambda>(category, keywords, sections) needed.
             if list_ex (\<lambda>keyword. contains keyword outline) keywords
             then needed \<union> set sections else needed) table A"
  by (induction table arbitrary: A) (auto split: prod.splits)

lemma circle_sections_eq: "circle_sections = [[0xC11C, 0xD074, SP, 0xCCB4, 0xACC4]]"
  by (simp add: circle_sections_def WORLD_KEYWORDS_def)

text \<open>
  Claim C6. The sections of the category \<^verbatim>\<open>circle\<close> are the one section U+C11C U+D074
  U+0020 U+CCB4 U+ACC4, and it is among the selected sections for every outline text. For
  the outline U+C758 U+BBF8 U+0020 U+C5C6 U+B294 U+0020 U+D14D U+C2A4 U+D2B8, in which no
  keyword occurs, it is the only selected section.
\<close>

theorem needed_sections_always_circle:
  "circle_sections = [[0xC11C, 0xD074, SP, 0xCCB4, 0xACC4]] \<and>
   [0xC11C, 0xD074, SP, 0xCCB4, 0xACC4] \<in> needed_sections outline \<and>
   needed_sections [0xC758, 0xBBF8, SP, 0xC5C6, 0xB294, SP, 0xD14D, 0xC2A4, 0xD2B8] =
     {[0xC11C, 0xD074, SP, 0xCCB4, 0xACC4]}"
proof (intro conjI)
  show "circle_sections = [[0xC11C, 0xD074, SP, 0xCCB4, 0xACC4]]"
    by (rule circle_sections_eq)
  show "[0xC11C, 0xD074, SP, 0xCCB4, 0xACC4] \<in> needed_sections outline"
    unfolding needed_sections_def by (rule fold_needed_mono) (simp add: circle_sections_eq)
  show "needed_sections [0xC758, 0xBBF8, SP, 0xC5C6, 0xB294, SP, 0xD14D, 0xC2A4, 0xD2B8] =
     {[0xC11C, 0xD074, SP, 0xCCB4, 0xACC4]}"
    by (simp add: needed_sections_def circle_sections_eq WORLD_KEYWORDS_def startswith_def)
qed

lemma elision_marker_no_nl: "NL \<notin> set elision_marker"
  by (simp add: elision_marker_def ascii_def)

text \<open>The lines of a section after truncation, for a limit of at least one line.\<close>

lemma truncate_section_lines:
  assumes "0 < limit"
  shows "split_nl (truncate_section limit section) =
     (if limit < length (split_nl section) then take limit (split_nl section) @ [elision_marker]
      else split_nl section)"
proof (cases "limit < length (split_nl section)")
  case True
  let ?ls = "take limit (split_nl section)"
  from True assms have ne: "?ls \<noteq> []" by auto
  have nonl: "\<forall>l \<in> set (?ls @ [elision_marker]). NL \<notin> set l"
    using split_nl_lines_no_nl elision_marker_no_nl by (auto dest: in_set_takeD)
  have "truncate_section limit section = join [NL] (?ls @ [elision_marker])"
    using True ne by (simp add: truncate_section_def Let_def join_snoc)
  moreover have "split_nl (join [NL] (?ls @ [elision_marker])) = ?ls @ [elision_marker]"
    using nonl by (intro split_nl_join) auto
  ultimately show ?thesis using True by simp
next
  case False
  then show ?thesis by (simp add: truncate_section_def Let_def)
qed

lemma truncate_section_id:
  "length (split_nl section) \<le> limit \<Longrightarrow> truncate_section limit section = section"
  by (simp add: truncate_section_def Let_def)

lemma truncate_section_spec:
  assumes "0 < limit"
  shows "length (split_nl (truncate_section limit section)) \<le> limit + 1 \<and>
     (length (split_nl (truncate_section limit section)) = limit + 1 \<longrightarrow>
        last (split_nl (truncate_section limit section)) = elision_marker) \<and>
     (limit < length (split_nl section) \<longrightarrow>
        split_nl (truncate_section limit section) =
          take limit (split_nl section) @ [elision_marker]) \<and>
     (length (split_nl section) \<le> limit \<longrightarrow> truncate_section limit section = section)"
  using assms by (auto simp: truncate_section_lines truncate_section_id)

lemma set_map_filter_iff:
  "y \<in> set (List.map_filter f xs) \<longleftrightarrow> (\<exists>x \<in> set xs. f x = Some y)"
  by (induction xs) (auto simp: List.map_filter_def)

lemma characters_extracted_iff:
  "s \<in> set (characters_extracted text outline) \<longleftrightarrow>
     (\<exists>header g. header \<in> set (mentioned outline) \<and>
        re_search (section_match (ascii ''## '' @ header) character_stop) text = Some g \<and>
        s = truncate_section 80 (ascii ''## '' @ header @ g))"
  unfolding characters_extracted_def set_map_filter_iff
  by (auto split: option.splits)

lemma world_extracted_iff:
  "s \<in> set (world_extracted world_text names) \<longleftrightarrow>
     (\<exists>section_name g. section_name \<in> set names \<and>
        re_search (section_match (ascii ''### '' @ section_name) world_stop) world_text = Some g \<and>
        s = truncate_section 60 (ascii ''### '' @ section_name @ g))"
  unfolding world_extracted_def set_map_filter_iff
  by (auto split: option.splits)

text \<open>
  Claim C7. For every selected character heading that the search finds in the document,
  the section is the heading line followed by the matched text, and the extractor produces
  it cut to 80 lines: when the section has more than 80 lines, its first 80 lines followed
  by the elision marker as the last line, and otherwise the section unchanged. The
  extractor produces nothing else, so every section string it produces has at most 81
  lines, and one of 81 lines ends in the marker line. The same holds for the world
  extractor with 60 and 61, in whatever order the selected names are visited.
\<close>

theorem extracted_sections_bounded:
  "(\<forall>header g.
      header \<in> set (mentioned outline) \<and>
      re_search (section_match (ascii ''## '' @ header) character_stop) text = Some g \<longrightarrow>
        truncate_section 80 (ascii ''## '' @ header @ g)
          \<in> set (characters_extracted text outline) \<and>
        (80 < length (split_nl (ascii ''## '' @ header @ g)) \<longrightarrow>
           split_nl (truncate_section 80 (ascii ''## '' @ header @ g)) =
             take 80 (split_nl (ascii ''## '' @ header @ g)) @ [elision_marker]) \<and>
        (length (split_nl (ascii ''## '' @ header @ g)) \<le> 80 \<longrightarrow>
           truncate_section 80 (ascii ''## '' @ header @ g) = ascii ''## '' @ header @ g)) \<and>
   (\<forall>s \<in> set (characters_extracted text outline).
      (\<exists>header g. header \<in> set (mentioned outline) \<and>
         re_search (section_match (ascii ''## '' @ header) character_stop) text = Some g \<and>
         s = truncate_section 80 (ascii ''## '' @ header @ g)) \<and>
      length (split_nl s) \<le> 81 \<and>
      (length (split_nl s) = 81 \<longrightarrow> last (split_nl s) = elision_marker)) \<and>
   (\<forall>section_name g.
      section_name \<in> set names \<and>
      re_search (section_match (ascii ''### '' @ section_name) world_stop) world_text = Some g \<longrightarrow>
        truncate_section 60 (ascii ''### '' @ section_name @ g)
          \<in> set (world_extracted world_text names) \<and>
        (60 < length (split_nl (ascii ''### '' @ section_name @ g)) \<longrightarrow>
           split_nl (truncate_section 60 (ascii ''### '' @ section_name @ g)) =
             take 60 (split_nl (ascii ''### '' @ section_name @ g)) @ [elision_marker]) \<and>
        (length (split_nl (ascii ''### '' @ section_name @ g)) \<le> 60 \<longrightarrow>
           truncate_section 60 (ascii ''### '' @ section_name @ g) =
             ascii ''### '' @ section_name @ g)) \<and>
   (\<forall>s \<in> set (world_extracted world_text names).
      (\<exists>section_name g. section_name \<in> set names \<and>
         re_search (section_match (ascii ''### '' @ section_name) world_stop) world_text = Some g \<and>
         s = truncate_section 60 (ascii ''### '' @ section_name @ g)) \<and>
      length (split_nl s) \<le> 61 \<and>
      (length (split_nl s) = 61 \<longrightarrow> last (split_nl s) = elision_marker))"
proof (intro conjI allI ballI impI)
  fix header g
  assume a: "header \<in> set (mentioned outline) \<and>
      re_search (section_match (ascii ''## '' @ header) character_stop) text = Some g"
  then show "truncate_section 80 (ascii ''## '' @ header @ g)
      \<in> set (characters_extracted text outline)"
    unfolding characters_extracted_iff by blast
  have spec: "length (split_nl (truncate_section 80 (ascii ''## '' @ header @ g))) \<le> 80 + 1 \<and>
     (length (split_nl (truncate_section 80 (ascii ''## '' @ header @ g))) = 80 + 1 \<longrightarrow>
        last (split_nl (truncate_section 80 (ascii ''## '' @ header @ g))) = elision_marker) \<and>
     (80 < length (split_nl (ascii ''## '' @ header @ g)) \<longrightarrow>
        split_nl (truncate_section 80 (ascii ''## '' @ header @ g)) =
          take 80 (split_nl (ascii ''## '' @ header @ g)) @ [elision_marker]) \<and>
     (length (split_nl (ascii ''## '' @ header @ g)) \<le> 80 \<longrightarrow>
        truncate_section 80 (ascii ''## '' @ header @ g) = ascii ''## '' @ header @ g)"
    by (rule truncate_section_spec) simp
  from spec show "split_nl (truncate_section 80 (ascii ''## '' @ header @ g)) =
      take 80 (split_nl (ascii ''## '' @ header @ g)) @ [elision_marker]"
    if "80 < length (split_nl (ascii ''## '' @ header @ g))"
    using that by blast
  from spec show "truncate_section 80 (ascii ''## '' @ header @ g) = ascii ''## '' @ header @ g"
    if "length (split_nl (ascii ''## '' @ header @ g)) \<le> 80"
    using that by blast
next
  fix s
  assume s: "s \<in> set (characters_extracted text outline)"
  then show ex: "\<exists>header g. header \<in> set (mentioned outline) \<and>
         re_search (section_match (ascii ''## '' @ header) character_stop) text = Some g \<and>
         s = truncate_section 80 (ascii ''## '' @ header @ g)"
    unfolding characters_extracted_iff .
  then obtain sec where e: "s = truncate_section 80 sec" by blast
  have spec: "length (split_nl s) \<le> 80 + 1 \<and>
     (length (split_nl s) = 80 + 1 \<longrightarrow> last (split_nl s) = elision_marker) \<and>
     (80 < length (split_nl sec) \<longrightarrow>
        split_nl s = take 80 (split_nl sec) @ [elision_marker]) \<and>
     (length (split_nl sec) \<le> 80 \<longrightarrow> s = sec)"
    unfolding e by (rule truncate_section_spec) simp
  from spec show "length (split_nl s) \<le> 81" by simp
  from spec show "last (split_nl s) = elision_marker" if "length (split_nl s) = 81"
    using that by simp
next
  fix section_name g
  assume a: "section_name \<in> set names \<and>
      re_search (section_match (ascii ''### '' @ section_name) world_stop) world_text = Some g"
  then show "truncate_section 60 (ascii ''### '' @ section_name @ g)
      \<in> set (world_extracted world_text names)"
    unfolding world_extracted_iff by blast
  have spec: "length (split_nl (truncate_section 60 (ascii ''### '' @ section_name @ g))) \<le> 60 + 1 \<and>
     (length (split_nl (truncate_section 60 (ascii ''### '' @ section_name @ g))) = 60 + 1 \<longrightarrow>
        last (split_nl (truncate_section 60 (ascii ''### '' @ section_name @ g))) =
          elision_marker) \<and>
     (60 < length (split_nl (ascii ''### '' @ section_name @ g)) \<longrightarrow>
        split_nl (truncate_section 60 (ascii ''### '' @ section_name @ g)) =
          take 60 (split_nl (ascii ''### '' @ section_name @ g)) @ [elision_marker]) \<and>
     (length (split_nl (ascii ''### '' @ section_name @ g)) \<le> 60 \<longrightarrow>
        truncate_section 60 (ascii ''### '' @ section_name @ g) =
          ascii ''### '' @ section_name @ g)"
    by (rule truncate_section_spec) simp
  from spec show "split_nl (truncate_section 60 (ascii ''### '' @ section_name @ g)) =
      take 60 (split_nl (ascii ''### '' @ section_name @ g)) @ [elision_marker]"
    if "60 < length (split_nl (ascii ''### '' @ section_name @ g))"
    using that by blast
  from spec show "truncate_section 60 (ascii ''### '' @ section_name @ g) =
      ascii ''### '' @ section_name @ g"
    if "length (split_nl (ascii ''### '' @ section_name @ g)) \<le> 60"
    using that by blast
next
  fix s
  assume s: "s \<in> set (world_extracted world_text names)"
  then show ex: "\<exists>section_name g. section_name \<in> set names \<and>
         re_search (section_match (ascii ''### '' @ section_name) world_stop) world_text = Some g \<and>
         s = truncate_section 60 (ascii ''### '' @ section_name @ g)"
    unfolding world_extracted_iff .
  then obtain sec where e: "s = truncate_section 60 sec" by blast
  have spec: "length (split_nl s) \<le> 60 + 1 \<and>
     (length (split_nl s) = 60 + 1 \<longrightarrow> last (split_nl s) = elision_marker) \<and>
     (60 < length (split_nl sec) \<longrightarrow>
        split_nl s = take 60 (split_nl sec) @ [elision_marker]) \<and>
     (length (split_nl sec) \<le> 60 \<longrightarrow> s = sec)"
    unfolding e by (rule truncate_section_spec) simp
  from spec show "length (split_nl s) \<le> 61" by simp
  from spec show "last (split_nl s) = elision_marker" if "length (split_nl s) = 61"
    using that by simp
qed

lemma lazy_until_newlines:
  assumes "\<And>k. \<not> stop (NL # replicate k NL)"
  shows "lazy_until stop (replicate n NL) = replicate n NL"
  using assms by (induction n) auto

lemma character_stop_newlines: "\<not> character_stop (NL # replicate k NL)"
  by (cases k) (auto simp: character_stop_def startswith_Cons ascii_def)

lemma world_stop_newlines: "\<not> world_stop (NL # replicate k NL)"
  by (cases k) (auto simp: world_stop_def startswith_Cons ascii_def)

lemma re_search_heading_newlines:
  assumes "\<And>k. \<not> stop (NL # replicate k NL)"
  shows "re_search (section_match (a # lit) stop) ((a # lit) @ NL # replicate n NL) =
     Some (NL # replicate n NL)"
  using lazy_until_newlines[of stop n, OF assms] startswith_append_self[of "a # lit"]
  by (simp add: section_match_def)

lemma split_nl_heading_newlines:
  "NL \<notin> set lit \<Longrightarrow> split_nl (lit @ NL # replicate n NL) = lit # replicate (Suc n) []"
  by (simp add: split_nl_append split_nl_replicate)

text \<open>
  The theorem at a character document that is the heading of the default character
  followed by 100 newlines, with an empty outline, and at a world document that is the
  heading of the \<^verbatim>\<open>circle\<close> section followed by 100 newlines: the matched sections have 101
  lines, and each extractor produces the section cut to 80 and to 60 lines, of 81 and of 61
  lines, whose last line is the elision marker.
\<close>

theorem extracted_sections_bounded_witness:
  "truncate_section 80 (ascii ''## '' @ default_character @ NL # replicate 99 NL)
     \<in> set (characters_extracted (ascii ''## '' @ default_character @ NL # replicate 99 NL) []) \<and>
   length (split_nl (truncate_section 80
     (ascii ''## '' @ default_character @ NL # replicate 99 NL))) = 81 \<and>
   last (split_nl (truncate_section 80
     (ascii ''## '' @ default_character @ NL # replicate 99 NL))) = elision_marker \<and>
   truncate_section 60
       (ascii ''### '' @ [0xC11C, 0xD074, SP, 0xCCB4, 0xACC4] @ NL # replicate 99 NL)
     \<in> set (world_extracted
         (ascii ''### '' @ [0xC11C, 0xD074, SP, 0xCCB4, 0xACC4] @ NL # replicate 99 NL)
         [[0xC11C, 0xD074, SP, 0xCCB4, 0xACC4]]) \<and>
   length (split_nl (truncate_section 60
     (ascii ''### '' @ [0xC11C, 0xD074, SP, 0xCCB4, 0xACC4] @ NL # replicate 99 NL))) = 61 \<and>
   last (split_nl (truncate_section 60
     (ascii ''### '' @ [0xC11C, 0xD074, SP, 0xCCB4, 0xACC4] @ NL # replicate 99 NL))) =
     elision_marker"
proof -
  let ?ch = "ascii ''## '' @ default_character"
  let ?ct = "ascii ''## '' @ default_character @ NL # replicate 99 NL"
  let ?wn = "[0xC11C, 0xD074, SP, 0xCCB4, 0xACC4] :: ustring"
  let ?wh = "ascii ''### '' @ ?wn"
  let ?wt = "ascii ''### '' @ ?wn @ NL # replicate 99 NL"
  have ch: "?ch = 35 # 35 # SP # default_character" by (simp add: ascii_def)
  have ct: "?ct = (35 # 35 # SP # default_character) @ NL # replicate 99 NL"
    by (simp add: ascii_def)
  have wh: "?wh = 35 # 35 # 35 # SP # ?wn" by (simp add: ascii_def)
  have wt: "?wt = (35 # 35 # 35 # SP # ?wn) @ NL # replicate 99 NL"
    by (simp add: ascii_def)
  have m: "default_character \<in> set (mentioned [])"
    by (simp add: mentioned_def CHARACTER_NAMES_def)
  have cs: "re_search (section_match ?ch character_stop) ?ct = Some (NL # replicate 99 NL)"
    unfolding ch ct by (rule re_search_heading_newlines) (rule character_stop_newlines)
  have ws: "re_search (section_match ?wh world_stop) ?wt = Some (NL # replicate 99 NL)"
    unfolding wh wt by (rule re_search_heading_newlines) (rule world_stop_newlines)
  have "NL \<notin> set (35 # 35 # SP # default_character)"
    by (simp add: default_character_def)
  then have cl: "split_nl ?ct = (35 # 35 # SP # default_character) # replicate 100 []"
    unfolding ct using split_nl_heading_newlines [of "35 # 35 # SP # default_character" 99]
    by simp
  have "NL \<notin> set (35 # 35 # 35 # SP # ?wn)"
    by simp
  then have wl: "split_nl ?wt = (35 # 35 # 35 # SP # ?wn) # replicate 100 []"
    unfolding wt
    using split_nl_heading_newlines [of "35 # 35 # 35 # SP # ?wn" 99]
    by simp
  have clong: "80 < length (split_nl ?ct)" unfolding cl by simp
  have wlong: "60 < length (split_nl ?wt)" unfolding wl by simp
  note inst = extracted_sections_bounded [of "[]" ?ct "[?wn]" ?wt]
  note chars = inst [THEN conjunct1, rule_format, of default_character "NL # replicate 99 NL",
      OF conjI [OF m cs]]
  note world = inst [THEN conjunct2, THEN conjunct2, THEN conjunct1, rule_format,
      of ?wn "NL # replicate 99 NL"]
  have cin: "truncate_section 80 ?ct \<in> set (characters_extracted ?ct [])"
    using chars [THEN conjunct1] .
  have clines: "split_nl (truncate_section 80 ?ct) = take 80 (split_nl ?ct) @ [elision_marker]"
    using chars [THEN conjunct2, THEN conjunct1] clong by (rule mp)
  have clen: "length (split_nl (truncate_section 80 ?ct)) = 81"
    unfolding clines cl by simp
  have clast: "last (split_nl (truncate_section 80 ?ct)) = elision_marker"
    unfolding clines by simp
  have w: "?wn \<in> set [?wn] \<and>
      re_search (section_match ?wh world_stop) ?wt = Some (NL # replicate 99 NL)"
    using ws by simp
  have win: "truncate_section 60 ?wt \<in> set (world_extracted ?wt [?wn])"
    using world [OF w, THEN conjunct1] .
  have wlines: "split_nl (truncate_section 60 ?wt) = take 60 (split_nl ?wt) @ [elision_marker]"
    using world [OF w, THEN conjunct2, THEN conjunct1] wlong by (rule mp)
  have wlen: "length (split_nl (truncate_section 60 ?wt)) = 61"
    unfolding wlines wl by simp
  have wlast: "last (split_nl (truncate_section 60 ?wt)) = elision_marker"
    unfolding wlines by simp
  from cin clen clast win wlen wlast show ?thesis by (intro conjI)
qed

section \<open>Properties of the run detector\<close>

lemma trailing_past_snoc:
  "trailing_past (pre @ [x]) = (if x = PAST then Suc (trailing_past pre) else 0)"
  by (simp add: trailing_past_def)

lemma trailing_past_le: "trailing_past pre \<le> length pre"
  unfolding trailing_past_def by (metis length_rev length_takeWhile_le)

lemma trailing_past_all:
  assumes "length pre - trailing_past pre \<le> k" "k < length pre"
  shows "pre ! k = PAST"
proof -
  let ?j = "length pre - Suc k"
  have j: "?j < trailing_past pre" using assms by linarith
  then have lt: "?j < length (takeWhile (\<lambda>c. c = PAST) (rev pre))"
    by (simp add: trailing_past_def)
  have eq: "takeWhile (\<lambda>c. c = PAST) (rev pre) ! ?j = rev pre ! ?j"
    using lt by (rule takeWhile_nth)
  have "takeWhile (\<lambda>c. c = PAST) (rev pre) ! ?j \<in> set (takeWhile (\<lambda>c. c = PAST) (rev pre))"
    using lt by (rule nth_mem)
  then have "takeWhile (\<lambda>c. c = PAST) (rev pre) ! ?j = PAST"
    by (blast dest: set_takeWhileD)
  with eq have "rev pre ! ?j = PAST" by simp
  moreover have "rev pre ! ?j = pre ! k" using assms(2) by (simp add: rev_nth)
  ultimately show ?thesis by simp
qed

lemma trailing_past_before:
  assumes "trailing_past pre < length pre"
  shows "pre ! (length pre - Suc (trailing_past pre)) \<noteq> PAST"
proof -
  have "trailing_past pre < length (rev pre)" using assms by simp
  then have "\<not> (rev pre ! trailing_past pre = PAST)"
    unfolding trailing_past_def by (rule nth_length_takeWhile)
  moreover have "rev pre ! trailing_past pre = pre ! (length pre - Suc (trailing_past pre))"
    using assms by (simp add: rev_nth)
  ultimately show ?thesis by simp
qed

text \<open>The maximal run that reaches the end of a sequence is its trailing run.\<close>

lemma maximal_past_run_at_end:
  "maximal_past_run pre s l \<and> s + l = length pre \<longleftrightarrow>
     0 < trailing_past pre \<and> l = trailing_past pre \<and> s = length pre - trailing_past pre"
proof
  assume a: "maximal_past_run pre s l \<and> s + l = length pre"
  let ?c = "trailing_past pre"
  from a have l: "0 < l" and all: "\<forall>k \<in> {s..<s + l}. pre ! k = PAST"
    and st: "s = 0 \<or> pre ! (s - 1) \<noteq> PAST" and e: "s + l = length pre"
    by (auto simp: maximal_past_run_def)
  have ge: "l \<le> ?c"
  proof (rule ccontr)
    assume "\<not> l \<le> ?c"
    then have lt: "?c < l" by simp
    with e have "?c < length pre" by linarith
    then have "pre ! (length pre - Suc ?c) \<noteq> PAST" by (rule trailing_past_before)
    moreover have "length pre - Suc ?c \<in> {s..<s + l}" using lt e by auto
    ultimately show False using all by blast
  qed
  have le: "?c \<le> l"
  proof (rule ccontr)
    assume "\<not> ?c \<le> l"
    then have lt: "l < ?c" by simp
    have cn: "?c \<le> length pre" by (rule trailing_past_le)
    with lt e have s0: "0 < s" by linarith
    have "pre ! (s - 1) = PAST"
      by (rule trailing_past_all) (use lt e s0 cn in linarith)+
    with st s0 show False by simp
  qed
  from ge le l e show "0 < ?c \<and> l = ?c \<and> s = length pre - ?c" by linarith
next
  let ?c = "trailing_past pre"
  assume a: "0 < ?c \<and> l = ?c \<and> s = length pre - ?c"
  have cn: "?c \<le> length pre" by (rule trailing_past_le)
  have all: "\<forall>k \<in> {s..<s + l}. pre ! k = PAST"
    using a cn by (auto intro!: trailing_past_all)
  have st: "s = 0 \<or> pre ! (s - 1) \<noteq> PAST"
  proof (cases "?c < length pre")
    case True
    then have "pre ! (length pre - Suc ?c) \<noteq> PAST" by (rule trailing_past_before)
    moreover have "s - 1 = length pre - Suc ?c" using a by simp
    ultimately show ?thesis by simp
  next
    case False
    with cn a show ?thesis by simp
  qed
  from a cn all st show "maximal_past_run pre s l \<and> s + l = length pre"
    by (auto simp: maximal_past_run_def)
qed

lemma maximal_past_run_snoc:
  assumes "s + l \<le> length pre"
  shows "maximal_past_run (pre @ [x]) s l \<longleftrightarrow>
     0 < l \<and> (\<forall>k \<in> {s..<s + l}. pre ! k = PAST) \<and> (s = 0 \<or> pre ! (s - 1) \<noteq> PAST) \<and>
     (if s + l = length pre then x \<noteq> PAST else pre ! (s + l) \<noteq> PAST)"
  using assms by (auto simp: maximal_past_run_def nth_append)

lemma maximal_past_run_bound: "maximal_past_run cats s l \<Longrightarrow> s + l \<le> length cats"
  by (simp add: maximal_past_run_def)

lemma closed_runs_snoc_past: "closed_runs (pre @ [PAST]) = closed_runs pre"
proof -
  have "maximal_past_run (pre @ [PAST]) s l \<and> 3 \<le> l \<and> s + l < length (pre @ [PAST]) \<longleftrightarrow>
        maximal_past_run pre s l \<and> 3 \<le> l \<and> s + l < length pre" for s l
  proof (cases "s + l \<le> length pre")
    case True
    then show ?thesis
      by (auto simp: maximal_past_run_snoc) (auto simp: maximal_past_run_def)
  next
    case False
    then show ?thesis by (auto dest: maximal_past_run_bound)
  qed
  then show ?thesis by (auto simp: closed_runs_def)
qed

lemma closed_runs_snoc_other:
  assumes "x \<noteq> PAST"
  shows "closed_runs (pre @ [x]) = closed_runs pre \<union>
     (if 3 \<le> trailing_past pre then {(length pre - trailing_past pre, trailing_past pre)}
      else {})"
proof -
  have "maximal_past_run (pre @ [x]) s l \<and> 3 \<le> l \<and> s + l < length (pre @ [x]) \<longleftrightarrow>
        (maximal_past_run pre s l \<and> 3 \<le> l \<and> s + l < length pre) \<or>
        (3 \<le> l \<and> maximal_past_run pre s l \<and> s + l = length pre)" for s l
  proof (cases "s + l \<le> length pre")
    case True
    with assms show ?thesis
      by (auto simp: maximal_past_run_snoc) (auto simp: maximal_past_run_def)
  next
    case False
    then show ?thesis by (auto dest: maximal_past_run_bound)
  qed
  then have "closed_runs (pre @ [x]) = closed_runs pre \<union>
      {(s, l). 3 \<le> l \<and> maximal_past_run pre s l \<and> s + l = length pre}"
    by (auto simp: closed_runs_def)
  moreover have "{(s, l). 3 \<le> l \<and> maximal_past_run pre s l \<and> s + l = length pre} =
      (if 3 \<le> trailing_past pre then {(length pre - trailing_past pre, trailing_past pre)}
       else {})"
    using maximal_past_run_at_end[of pre] by auto
  ultimately show ?thesis by simp
qed

lemma long_runs_closed:
  "long_runs cats = closed_runs cats \<union>
     (if 3 \<le> trailing_past cats then {(length cats - trailing_past cats, trailing_past cats)}
      else {})"
proof -
  have "long_runs cats = closed_runs cats \<union>
      {(s, l). 3 \<le> l \<and> maximal_past_run cats s l \<and> s + l = length cats}"
    by (auto simp: long_runs_def closed_runs_def dest: maximal_past_run_bound)
  moreover have "{(s, l). 3 \<le> l \<and> maximal_past_run cats s l \<and> s + l = length cats} =
      (if 3 \<le> trailing_past cats then {(length cats - trailing_past cats, trailing_past cats)}
       else {})"
    using maximal_past_run_at_end[of cats] by auto
  ultimately show ?thesis by simp
qed

lemma samples_of_range:
  assumes "0 \<le> a" "nat a + m \<le> length sentence_texts"
  shows "samples_of sentence_texts (py_range a (a + int m)) =
     Inr (map (\<lambda>j. last30 (sentence_texts ! j)) [nat a..<nat a + m])"
  using assms
proof (induction m arbitrary: a)
  case 0
  then show ?case by (simp add: py_range_def)
next
  case (Suc m)
  have r: "py_range a (a + int (Suc m)) = a # py_range (a + 1) (a + 1 + int m)"
    by (simp add: py_range_def upto_rec1)
  have n: "nat (a + 1) = Suc (nat a)" using Suc.prems(1) by simp
  have u: "[nat a..<nat a + Suc m] = nat a # [Suc (nat a)..<Suc (nat a) + m]"
    by (subst upt_conv_Cons) auto
  have get: "py_get sentence_texts a = Inr (sentence_texts ! nat a)"
    using Suc.prems by (simp add: py_get_def)
  have "samples_of sentence_texts (py_range (a + 1) (a + 1 + int m)) =
      Inr (map (\<lambda>j. last30 (sentence_texts ! j)) [nat (a + 1)..<nat (a + 1) + m])"
    using Suc.prems by (intro Suc.IH) (simp_all add: n)
  then have ih: "samples_of sentence_texts (py_range (a + 1) (a + 1 + int m)) =
      Inr (map (\<lambda>j. last30 (sentence_texts ! j)) [Suc (nat a)..<Suc (nat a) + m])"
    unfolding n .
  show ?case unfolding r u by (simp add: get ih del: upt_Suc)
qed

lemma make_group_ok:
  assumes "0 \<le> start" "nat start + min consecutive 3 \<le> length sentence_texts"
  shows "make_group sentence_texts start consecutive =
     Inr \<lparr>g_start = start, g_length = consecutive,
          g_samples = map (\<lambda>j. last30 (sentence_texts ! j))
            [nat start..<nat start + min consecutive 3]\<rparr>"
  using samples_of_range[OF assms] by (simp add: make_group_def)

lemma closed_run_before_trailing:
  assumes "(s, l) \<in> closed_runs pre"
  shows "s + l < length pre - trailing_past pre"
proof (rule ccontr)
  from assms have cl: "s + l < length pre" and stop: "pre ! (s + l) \<noteq> PAST"
    by (auto simp: closed_runs_def maximal_past_run_def)
  assume "\<not> s + l < length pre - trailing_past pre"
  then have "length pre - trailing_past pre \<le> s + l" by simp
  then have "pre ! (s + l) = PAST" using cl by (rule trailing_past_all)
  with stop show False by simp
qed

lemma group_before_trailing:
  assumes "set (map group_span groups) = (\<lambda>(s, l). (int s, l)) ` closed_runs pre"
    "g \<in> set groups"
  shows "g_start g < int (length pre - trailing_past pre)"
proof -
  from assms have "group_span g \<in> (\<lambda>(s, l). (int s, l)) ` closed_runs pre"
    by auto
  then obtain s l where sl: "g_start g = int s" and run: "(s, l) \<in> closed_runs pre"
    by (auto simp: group_span_def)
  from run have "s + l < length pre - trailing_past pre"
    by (rule closed_run_before_trailing)
  with sl show ?thesis by simp
qed

text \<open>One iteration of the loop keeps the invariant and does not raise.\<close>

lemma scan_step_past:
  assumes "scan_inv sentence_texts pre (start, consecutive, groups)"
  shows "scan_inv sentence_texts (pre @ [PAST])
     (if consecutive = 0 then int (length pre) else start, consecutive + 1, groups)"
  using assms trailing_past_le[of pre]
  by (auto simp: scan_inv_def trailing_past_snoc closed_runs_snoc_past)

lemma scan_step_other_short:
  assumes "scan_inv sentence_texts pre (start, consecutive, groups)" "cat \<noteq> PAST"
    "\<not> 3 \<le> consecutive"
  shows "scan_inv sentence_texts (pre @ [cat]) (-1, 0, groups)"
  using assms
  by (auto simp: scan_inv_def trailing_past_snoc closed_runs_snoc_other)

lemma scan_step_other_long:
  assumes inv: "scan_inv sentence_texts pre (start, consecutive, groups)" and "cat \<noteq> PAST"
    and long: "3 \<le> consecutive" and len: "length pre \<le> length sentence_texts"
  shows "\<exists>g. make_group sentence_texts start consecutive = Inr g \<and>
     scan_inv sentence_texts (pre @ [cat]) (-1, 0, groups @ [g])"
proof -
  let ?c = "trailing_past pre"
  from inv have c: "consecutive = ?c" and st: "start = int (length pre - ?c)"
    and ok: "\<forall>g \<in> set groups. samples_ok sentence_texts g"
    and sorted: "sorted_wrt (<) (map g_start groups)"
    and spans: "set (map group_span groups) = (\<lambda>(s, l). (int s, l)) ` closed_runs pre"
    using long by (auto simp: scan_inv_def)
  have cn: "?c \<le> length pre" by (rule trailing_past_le)
  let ?g = "\<lparr>g_start = start, g_length = consecutive,
     g_samples = map (\<lambda>j. last30 (sentence_texts ! j))
       [nat start..<nat start + min consecutive 3]\<rparr>"
  have mg: "make_group sentence_texts start consecutive = Inr ?g"
    by (rule make_group_ok) (use st c cn len in auto)
  have gok: "samples_ok sentence_texts ?g"
    using st by (simp add: samples_ok_def)
  have earlier: "g_start g < start" if "g \<in> set groups" for g
    using group_before_trailing[OF spans that] st by simp
  have sorted': "sorted_wrt (<) (map g_start (groups @ [?g]))"
    using sorted earlier by (auto simp: sorted_wrt_append)
  have spans': "set (map group_span (groups @ [?g])) =
      (\<lambda>(s, l). (int s, l)) ` closed_runs (pre @ [cat])"
    using spans st c long \<open>cat \<noteq> PAST\<close>
    by (simp add: closed_runs_snoc_other group_span_def)
  from ok gok sorted' spans' \<open>cat \<noteq> PAST\<close> have
    "scan_inv sentence_texts (pre @ [cat]) (-1, 0, groups @ [?g])"
    by (simp add: scan_inv_def trailing_past_snoc)
  with mg show ?thesis by blast
qed

lemma scan_categories_inv:
  assumes "length pre + length cats \<le> length sentence_texts"
    "scan_inv sentence_texts pre st"
  shows "\<exists>st'. scan_categories sentence_texts (length pre) cats st = Inr st' \<and>
     scan_inv sentence_texts (pre @ cats) st'"
  using assms
proof (induction cats arbitrary: pre st)
  case Nil
  then show ?case by simp
next
  case (Cons cat cats)
  obtain start consecutive groups where st: "st = (start, consecutive, groups)"
    by (cases st) auto
  have len: "length (pre @ [cat]) + length cats \<le> length sentence_texts"
    using Cons.prems(1) by simp
  show ?case
  proof (cases "cat = PAST")
    case True
    from Cons.prems(2) have "scan_inv sentence_texts (pre @ [PAST])
       (if consecutive = 0 then int (length pre) else start, consecutive + 1, groups)"
      unfolding st by (rule scan_step_past)
    from Cons.IH[OF len[unfolded True] this] show ?thesis
      by (simp add: st True)
  next
    case False
    show ?thesis
    proof (cases "3 \<le> consecutive")
      case short: False
      from Cons.prems(2) False short have "scan_inv sentence_texts (pre @ [cat]) (-1, 0, groups)"
        unfolding st by (rule scan_step_other_short)
      from Cons.IH[OF len this] show ?thesis
        using False short by (simp add: st)
    next
      case long: True
      have "length pre \<le> length sentence_texts" using Cons.prems(1) by simp
      with Cons.prems(2) False long obtain g where
        mg: "make_group sentence_texts start consecutive = Inr g"
        and inv: "scan_inv sentence_texts (pre @ [cat]) (-1, 0, groups @ [g])"
        unfolding st using scan_step_other_long by blast
      from Cons.IH[OF len inv] show ?thesis
        using False long mg by (simp add: st)
    qed
  qed
qed

lemma scan_inv_init: "scan_inv sentence_texts [] (-1, 0, [])"
  by (simp add: scan_inv_def trailing_past_def closed_runs_def)

text \<open>The result of the run detection for lists of equal length.\<close>

lemma violation_groups_correct:
  assumes "length sentence_texts = length categories"
  shows "\<exists>groups. violation_groups categories sentence_texts = Inr groups \<and>
     set (map group_span groups) = (\<lambda>(s, l). (int s, l)) ` long_runs categories \<and>
     sorted_wrt (<) (map g_start groups) \<and>
     (\<forall>g \<in> set groups. samples_ok sentence_texts g)"
proof -
  have "length ([] :: category list) + length categories \<le> length sentence_texts"
    using assms by simp
  from scan_categories_inv[OF this scan_inv_init]
  obtain st' where run: "scan_categories sentence_texts 0 categories (-1, 0, []) = Inr st'"
    and inv: "scan_inv sentence_texts categories st'"
    by auto
  obtain start consecutive groups where st': "st' = (start, consecutive, groups)"
    by (cases st') auto
  let ?c = "trailing_past categories"
  from inv have c: "consecutive = ?c"
    and st: "0 < consecutive \<longrightarrow> start = int (length categories - ?c)"
    and ok: "\<forall>g \<in> set groups. samples_ok sentence_texts g"
    and sorted: "sorted_wrt (<) (map g_start groups)"
    and spans: "set (map group_span groups) = (\<lambda>(s, l). (int s, l)) ` closed_runs categories"
    by (auto simp: scan_inv_def st')
  have cn: "?c \<le> length categories" by (rule trailing_past_le)
  show ?thesis
  proof (cases "3 \<le> consecutive")
    case False
    then have "violation_groups categories sentence_texts = Inr groups"
      by (simp add: violation_groups_def run st')
    moreover have "long_runs categories = closed_runs categories"
      using False c by (simp add: long_runs_closed)
    ultimately show ?thesis using ok sorted spans by auto
  next
    case True
    let ?g = "\<lparr>g_start = start, g_length = consecutive,
       g_samples = map (\<lambda>j. last30 (sentence_texts ! j))
         [nat start..<nat start + min consecutive 3]\<rparr>"
    from True st have start: "start = int (length categories - ?c)" by simp
    have mg: "make_group sentence_texts start consecutive = Inr ?g"
      by (rule make_group_ok) (use start c cn assms in auto)
    have res: "violation_groups categories sentence_texts = Inr (groups @ [?g])"
      using True by (simp add: violation_groups_def run st' mg)
    have gok: "samples_ok sentence_texts ?g"
      using start by (simp add: samples_ok_def)
    have "g_start g < start" if "g \<in> set groups" for g
      using group_before_trailing[OF spans that] start by simp
    then have sorted': "sorted_wrt (<) (map g_start (groups @ [?g]))"
      using sorted by (auto simp: sorted_wrt_append)
    have spans': "set (map group_span (groups @ [?g])) =
        (\<lambda>(s, l). (int s, l)) ` long_runs categories"
      using spans start c True by (simp add: long_runs_closed group_span_def)
    from res ok gok sorted' spans' show ?thesis by auto
  qed
qed

lemma last30_suffix: "length (last30 t) = min (length t) 30 \<and> take (length t - 30) t @ last30 t = t"
  by (auto simp: last30_def)

lemma violation_groups_example_middle:
  "violation_groups [PAST, PAST, PAST, OTHER_DA, PAST, PAST] [t0, t1, t2, t3, t4, t5] =
     Inr [\<lparr>g_start = 0, g_length = 3, g_samples = [last30 t0, last30 t1, last30 t2]\<rparr>]"
  by (simp add: violation_groups_def make_group_def py_range_def py_get_def upto.simps)

lemma violation_groups_example_trailing:
  "violation_groups [OTHER_DA, PAST, PAST, PAST] [u0, u1, u2, u3] =
     Inr [\<lparr>g_start = 1, g_length = 3, g_samples = [last30 u1, last30 u2, last30 u3]\<rparr>]"
  by (simp add: violation_groups_def make_group_def py_range_def py_get_def upto.simps)

text \<open>
  Claim C2. When the texts are as many as the classifications, as in the source, the run
  detector raises nothing and returns groups whose start indices and lengths are exactly
  those of the maximal runs of at least three \<open>PAST\<close> entries, each once and in increasing
  order of start, a run that reaches the last entry included. Each group carries
  \<open>min length 3\<close> samples, the last 30 characters (or the whole, when shorter) of the texts
  at the first positions of its run. The two sequences of the specification yield one
  group each, of length 3, at index 0 and at index 1.
\<close>

theorem violation_groups_maximal_runs:
  "(length sentence_texts = length categories \<longrightarrow>
      (\<exists>groups. violation_groups categories sentence_texts = Inr groups \<and>
         set (map group_span groups) =
           {(int s, l) | s l. maximal_past_run categories s l \<and> 3 \<le> l} \<and>
         sorted_wrt (<) (map g_start groups) \<and>
         (\<forall>g \<in> set groups.
            0 \<le> g_start g \<and> length (g_samples g) = min (g_length g) 3 \<and>
            g_samples g =
              map (\<lambda>j. last30 (sentence_texts ! j))
                [nat (g_start g)..<nat (g_start g) + min (g_length g) 3]))) \<and>
   (length (last30 t) = min (length t) 30 \<and> take (length t - 30) t @ last30 t = t) \<and>
   violation_groups [PAST, PAST, PAST, OTHER_DA, PAST, PAST] [t0, t1, t2, t3, t4, t5] =
     Inr [\<lparr>g_start = 0, g_length = 3, g_samples = [last30 t0, last30 t1, last30 t2]\<rparr>] \<and>
   violation_groups [OTHER_DA, PAST, PAST, PAST] [u0, u1, u2, u3] =
     Inr [\<lparr>g_start = 1, g_length = 3, g_samples = [last30 u1, last30 u2, last30 u3]\<rparr>]"
proof (intro conjI impI)
  assume "length sentence_texts = length categories"
  then obtain groups where res: "violation_groups categories sentence_texts = Inr groups"
    and spans: "set (map group_span groups) = (\<lambda>(s, l). (int s, l)) ` long_runs categories"
    and sorted: "sorted_wrt (<) (map g_start groups)"
    and ok: "\<forall>g \<in> set groups. samples_ok sentence_texts g"
    using violation_groups_correct by blast
  have "(\<lambda>(s, l). (int s, l)) ` long_runs categories =
      {(int s, l) | s l. maximal_past_run categories s l \<and> 3 \<le> l}"
    by (auto simp: long_runs_def)
  with spans have spans': "set (map group_span groups) =
      {(int s, l) | s l. maximal_past_run categories s l \<and> 3 \<le> l}"
    by simp
  have ok': "\<forall>g \<in> set groups.
      0 \<le> g_start g \<and> length (g_samples g) = min (g_length g) 3 \<and>
      g_samples g =
        map (\<lambda>j. last30 (sentence_texts ! j))
          [nat (g_start g)..<nat (g_start g) + min (g_length g) 3]"
    using ok by (auto simp: samples_ok_def)
  from res spans' sorted ok'
  show "\<exists>groups. violation_groups categories sentence_texts = Inr groups \<and>
         set (map group_span groups) =
           {(int s, l) | s l. maximal_past_run categories s l \<and> 3 \<le> l} \<and>
         sorted_wrt (<) (map g_start groups) \<and>
         (\<forall>g \<in> set groups.
            0 \<le> g_start g \<and> length (g_samples g) = min (g_length g) 3 \<and>
            g_samples g =
              map (\<lambda>j. last30 (sentence_texts ! j))
                [nat (g_start g)..<nat (g_start g) + min (g_length g) 3])"
    by blast
next
  show "length (last30 t) = min (length t) 30" "take (length t - 30) t @ last30 t = t"
    using last30_suffix by blast+
next
  show "violation_groups [PAST, PAST, PAST, OTHER_DA, PAST, PAST] [t0, t1, t2, t3, t4, t5] =
     Inr [\<lparr>g_start = 0, g_length = 3, g_samples = [last30 t0, last30 t1, last30 t2]\<rparr>]"
    by (rule violation_groups_example_middle)
next
  show "violation_groups [OTHER_DA, PAST, PAST, PAST] [u0, u1, u2, u3] =
     Inr [\<lparr>g_start = 1, g_length = 3, g_samples = [last30 u1, last30 u2, last30 u3]\<rparr>]"
    by (rule violation_groups_example_trailing)
qed

text \<open>
  The theorem at four \<open>PAST\<close> entries with four texts: the detector returns groups, in
  increasing order of start.
\<close>

theorem violation_groups_maximal_runs_witness:
  "length [[49 :: nat], [50], [51], [52]] = length [PAST, PAST, PAST, PAST] \<and>
   (\<exists>groups. violation_groups [PAST, PAST, PAST, PAST] [[49], [50], [51], [52]] = Inr groups \<and>
      sorted_wrt (<) (map g_start groups))"
proof -
  have len: "length [[49 :: nat], [50], [51], [52]] = length [PAST, PAST, PAST, PAST]"
    by simp
  note inst = violation_groups_maximal_runs
    [of "[[49], [50], [51], [52]]" "[PAST, PAST, PAST, PAST]"]
  from inst [THEN conjunct1, THEN mp, OF len]
  have "\<exists>groups. violation_groups [PAST, PAST, PAST, PAST] [[49], [50], [51], [52]] = Inr groups \<and>
      sorted_wrt (<) (map g_start groups)"
    by blast
  with len show ?thesis by (rule conjI)
qed

section \<open>Properties of the hook extractor\<close>

lemma re_search_first:
  assumes "\<forall>i \<in> {0..<length pre}. m (drop i (pre @ s)) = None" "m s = Some r"
  shows "re_search m (pre @ s) = Some r"
  using assms
proof (induction pre)
  case Nil
  then show ?case by (cases s) auto
next
  case (Cons p pre)
  from Cons.prems(1) have "m (drop 0 ((p # pre) @ s)) = None" by fastforce
  then have here: "m (p # pre @ s) = None" by simp
  have "m (drop i (pre @ s)) = None" if "i \<in> {0..<length pre}" for i
  proof -
    from that have "Suc i \<in> {0..<length (p # pre)}" by simp
    with Cons.prems(1) have "m (drop (Suc i) ((p # pre) @ s)) = None" by blast
    then show ?thesis by simp
  qed
  then have "re_search m (pre @ s) = Some r" using Cons.prems(2) by (intro Cons.IH) auto
  with here show ?case by simp
qed

lemma re_search_none:
  assumes "\<forall>i \<in> {0..length s}. m (drop i s) = None"
  shows "re_search m s = None"
  using assms
proof (induction s)
  case Nil
  then show ?case by simp
next
  case (Cons c cs)
  from Cons.prems have "m (drop 0 (c # cs)) = None" by fastforce
  then have here: "m (c # cs) = None" by simp
  have "m (drop i cs) = None" if "i \<in> {0..length cs}" for i
  proof -
    from that have "Suc i \<in> {0..length (c # cs)}" by simp
    with Cons.prems have "m (drop (Suc i) (c # cs)) = None" by blast
    then show ?thesis by simp
  qed
  then have "re_search m cs = None" by (intro Cons.IH) auto
  with here show ?case by simp
qed

lemma lazy_until_ends:
  assumes "stop rest" "\<forall>i \<in> {0..<length body}. \<not> stop (drop i (body @ rest))"
  shows "lazy_until stop (body @ rest) = body"
  using assms
proof (induction body)
  case Nil
  then show ?case by (cases rest) auto
next
  case (Cons b body)
  from Cons.prems(2) have "\<not> stop (drop 0 ((b # body) @ rest))" by fastforce
  then have here: "\<not> stop (b # body @ rest)" by simp
  have "\<not> stop (drop i (body @ rest))" if "i \<in> {0..<length body}" for i
  proof -
    from that have "Suc i \<in> {0..<length (b # body)}" by simp
    with Cons.prems(2) have "\<not> stop (drop (Suc i) ((b # body) @ rest))" by blast
    then show ?thesis by simp
  qed
  then have "lazy_until stop (body @ rest) = body" using Cons.prems(1) by (intro Cons.IH) auto
  with here show ?case by simp
qed

lemma lazy_until_ends_at:
  assumes "ends_at stop (c # body) rest"
  shows "c # lazy_until stop (body @ rest) = c # body"
proof -
  from assms have s: "stop rest"
    and inner: "\<forall>i \<in> {1..<length (c # body)}. \<not> stop (drop i ((c # body) @ rest))"
    by (auto simp: ends_at_def)
  have "\<not> stop (drop i (body @ rest))" if "i \<in> {0..<length body}" for i
  proof -
    from that have "Suc i \<in> {1..<length (c # body)}" by simp
    with inner have "\<not> stop (drop (Suc i) ((c # body) @ rest))" by blast
    then show ?thesis by simp
  qed
  with s have "lazy_until stop (body @ rest) = body" by (intro lazy_until_ends) auto
  then show ?thesis by simp
qed

lemma section_match_here:
  assumes "body \<noteq> []" "ends_at stop body rest"
  shows "section_match lit stop (lit @ body @ rest) = Some body"
proof -
  from assms(1) obtain c body' where b: "body = c # body'" by (cases body) auto
  from assms(2) have "c # lazy_until stop (body' @ rest) = c # body'"
    unfolding b by (rule lazy_until_ends_at)
  then show ?thesis by (simp add: section_match_def startswith_def b)
qed

lemma section_match_Some_startswith:
  "section_match lit stop s = Some r \<Longrightarrow> startswith lit s"
  by (auto simp: section_match_def split: if_splits)

text \<open>The block that the search finds after the first occurrence of its heading.\<close>

lemma re_search_section:
  assumes "first_occurrence lit pre (body @ rest)" "body \<noteq> []" "ends_at stop body rest"
  shows "re_search (section_match lit stop) (pre @ lit @ body @ rest) = Some body"
proof (rule re_search_first)
  show "\<forall>i \<in> {0..<length pre}. section_match lit stop (drop i (pre @ lit @ body @ rest)) = None"
  proof
    fix i assume "i \<in> {0..<length pre}"
    with assms(1) have "\<not> startswith lit (drop i (pre @ lit @ body @ rest))"
      by (auto simp: first_occurrence_def)
    then show "section_match lit stop (drop i (pre @ lit @ body @ rest)) = None"
      by (simp add: section_match_def)
  qed
  show "section_match lit stop (lit @ body @ rest) = Some body"
    using assms(2,3) by (rule section_match_here)
qed

lemma startswith_length:
  assumes "startswith p s"
  shows "length p \<le> length s"
proof -
  from assms have "length (take (length p) s) = length p" by (simp add: startswith_def)
  then show ?thesis by simp
qed

lemma hook_label_nonempty: "hook_label \<noteq> []"
  by (simp add: hook_label_def ascii_def)

lemma hook_match_Some_startswith: "hook_match s = Some r \<Longrightarrow> startswith hook_label s"
  by (auto simp: hook_match_def split: if_splits)

lemma contains_drop: "startswith sub (drop i s) \<Longrightarrow> i \<le> length s \<Longrightarrow> contains sub s"
proof (induction s arbitrary: i)
  case Nil
  then show ?case by (simp add: startswith_def)
next
  case (Cons c cs)
  then show ?case by (cases i) auto
qed

lemma re_search_Some_drop:
  "re_search m s = Some r \<Longrightarrow> \<exists>i \<le> length s. m (drop i s) = Some r"
proof (induction s)
  case Nil
  then show ?case by simp
next
  case (Cons c cs)
  show ?case
  proof (cases "m (c # cs)")
    case None
    with Cons obtain i where "i \<le> length cs" "m (drop i cs) = Some r" by auto
    then have "Suc i \<le> length (c # cs) \<and> m (drop (Suc i) (c # cs)) = Some r" by simp
    then show ?thesis by blast
  next
    case (Some a)
    with Cons.prems have "m (drop 0 (c # cs)) = Some r" by simp
    then show ?thesis by blast
  qed
qed

lemma hook_search_no_label:
  assumes "\<not> contains hook_label block"
  shows "re_search hook_match block = None"
proof (rule ccontr)
  assume "re_search hook_match block \<noteq> None"
  then obtain r where "re_search hook_match block = Some r" by auto
  from re_search_Some_drop[OF this]
  obtain i where i: "i \<le> length block" and m: "hook_match (drop i block) = Some r"
    by auto
  from m have "startswith hook_label (drop i block)" by (rule hook_match_Some_startswith)
  then have "contains hook_label block" using i by (rule contains_drop)
  with assms show False by simp
qed

lemma hook_match_here:
  assumes "\<forall>c \<in> set ws. py_isspace c" "body \<noteq> []" "\<not> py_isspace (hd body)"
    "ends_at hook_stop body rest"
  shows "hook_match (hook_label @ ws @ body @ rest) = Some body"
proof -
  from assms(2) obtain c body' where b: "body = c # body'" by (cases body) auto
  from assms(3) have c: "\<not> py_isspace c" by (simp add: b)
  have dw: "dropWhile py_isspace (ws @ c # body' @ rest) = c # body' @ rest"
    using assms(1) c by (simp add: dropWhile_append2)
  from assms(4) have "c # lazy_until hook_stop (body' @ rest) = c # body'"
    unfolding b by (rule lazy_until_ends_at)
  then show ?thesis
    by (simp add: hook_match_def startswith_def Let_def dw b)
qed

lemma hook_search_found:
  assumes "first_occurrence hook_label bpre (ws @ body @ rest)" "\<forall>c \<in> set ws. py_isspace c"
    "body \<noteq> []" "\<not> py_isspace (hd body)" "ends_at hook_stop body rest"
  shows "re_search hook_match (bpre @ hook_label @ ws @ body @ rest) = Some body"
proof (rule re_search_first)
  show "\<forall>i \<in> {0..<length bpre}.
      hook_match (drop i (bpre @ hook_label @ ws @ body @ rest)) = None"
  proof
    fix i assume "i \<in> {0..<length bpre}"
    with assms(1) have "\<not> startswith hook_label (drop i (bpre @ hook_label @ ws @ body @ rest))"
      by (auto simp: first_occurrence_def)
    then show "hook_match (drop i (bpre @ hook_label @ ws @ body @ rest)) = None"
      by (simp add: hook_match_def)
  qed
  show "hook_match (hook_label @ ws @ body @ rest) = Some body"
    using assms(2-5) by (rule hook_match_here)
qed

lemma strip_all_space:
  assumes "\<forall>c \<in> set s. py_isspace c"
  shows "strip s = []"
proof -
  from assms have "dropWhile py_isspace (rev s) = []" by simp
  then have "rstrip s = []" by (simp add: rstrip_def)
  then show ?thesis by (simp add: strip_def lstrip_def)
qed

text \<open>When only whitespace follows the first label, the hook is empty, match or not.\<close>

lemma hook_search_blank:
  assumes "first_occurrence hook_label bpre ws" "\<forall>c \<in> set ws. py_isspace c"
  shows "(case re_search hook_match (bpre @ hook_label @ ws) of
            None \<Rightarrow> [] | Some hook \<Rightarrow> strip hook) = []"
proof (cases "ws = []")
  case False
  have dw: "dropWhile py_isspace ws = []" "takeWhile py_isspace ws = ws"
    using assms(2) by simp_all
  have "hook_match (hook_label @ ws) = Some [last ws]"
    using False by (simp add: hook_match_def startswith_def Let_def dw)
  moreover have "\<forall>i \<in> {0..<length bpre}. hook_match (drop i (bpre @ hook_label @ ws)) = None"
  proof
    fix i assume "i \<in> {0..<length bpre}"
    with assms(1) have "\<not> startswith hook_label (drop i (bpre @ hook_label @ ws))"
      by (auto simp: first_occurrence_def)
    then show "hook_match (drop i (bpre @ hook_label @ ws)) = None"
      by (simp add: hook_match_def)
  qed
  ultimately have "re_search hook_match (bpre @ hook_label @ ws) = Some [last ws]"
    by (intro re_search_first)
  moreover have "strip [last ws] = []"
    using False assms(2) by (intro strip_all_space) auto
  ultimately show ?thesis by simp
next
  case True
  show ?thesis
  proof (cases "re_search hook_match (bpre @ hook_label @ ws)")
    case None
    then show ?thesis by simp
  next
    case (Some r)
    then obtain i where i: "i \<le> length (bpre @ hook_label)"
      and m: "hook_match (drop i (bpre @ hook_label)) = Some r"
      using re_search_Some_drop[of hook_match "bpre @ hook_label @ ws" r] True by auto
    from m have sw: "startswith hook_label (drop i (bpre @ hook_label))"
      by (rule hook_match_Some_startswith)
    have "i = length bpre"
    proof (rule ccontr)
      assume ne: "i \<noteq> length bpre"
      show False
      proof (cases "i < length bpre")
        case True
        with assms(1) sw \<open>ws = []\<close> show False by (auto simp: first_occurrence_def)
      next
        case False
        with ne have "length bpre < i" by simp
        then have "length (drop i (bpre @ hook_label)) < length hook_label"
          using i hook_label_nonempty by (cases hook_label) auto
        with startswith_length[OF sw] show False by simp
      qed
    qed
    with m have "hook_match hook_label = Some r" by simp
    then show ?thesis by (simp add: hook_match_def startswith_def Let_def)
  qed
qed

lemma block_stop_not_nl: "s \<noteq> [] \<Longrightarrow> hd s \<noteq> NL \<Longrightarrow> \<not> block_stop s"
  by (cases s) (auto simp: block_stop_def startswith_def)

lemma hook_stop_not_nl: "s \<noteq> [] \<Longrightarrow> hd s \<noteq> NL \<Longrightarrow> \<not> hook_stop s"
  by (cases s) (auto simp: hook_stop_def startswith_def)

text \<open>A body without a newline ends where a stop pattern matches after it.\<close>

lemma ends_at_no_nl:
  assumes "\<And>s. s \<noteq> [] \<Longrightarrow> hd s \<noteq> NL \<Longrightarrow> \<not> stop s" "stop rest" "NL \<notin> set body"
  shows "ends_at stop body rest"
proof -
  have "\<not> stop (drop i (body @ rest))" if "i \<in> {1..<length body}" for i
  proof -
    from that have i: "i < length body" by simp
    then have "drop i (body @ rest) = body ! i # drop (Suc i) body @ rest"
      by (simp add: Cons_nth_drop_Suc)
    moreover have "body ! i \<noteq> NL" using i assms(3) by (metis nth_mem)
    ultimately show ?thesis using assms(1) by simp
  qed
  with assms(2) show ?thesis by (simp add: ends_at_def)
qed

lemma block_heading_examples:
  "block_heading 1 = ascii ''### EP-01:''" "block_heading 12 = ascii ''### EP-12:''"
  by (simp_all add: block_heading_def ep_tag_def decimal.simps ascii_def)

lemma prev_ending_hook_rule_first:
  "prev_ending_hook
     (ascii ''### EP-01:'' @ NL # ascii ''---'' @ NL # hook_label @ ascii '' X'') 2 = ascii ''X''"
  by (simp add: prev_ending_hook_def block_heading_def ep_tag_def decimal.simps ascii_def
      hook_label_def section_match_def hook_match_def startswith_def block_stop_def
      hook_stop_def strip_def lstrip_def rstrip_def py_isspace_def Let_def)

lemma prev_ending_hook_heading_first:
  "prev_ending_hook
     (ascii ''### EP-01:'' @ NL # ascii ''### EP-02: t'' @ NL # hook_label @ ascii '' Z'') 2
     = ascii ''Z''"
  by (simp add: prev_ending_hook_def block_heading_def ep_tag_def decimal.simps ascii_def
      hook_label_def section_match_def hook_match_def startswith_def block_stop_def
      hook_stop_def strip_def lstrip_def rstrip_def py_isspace_def Let_def)

text \<open>
  Claim C5, as amended. For an episode number \<open>N > 1\<close>, the previous block is taken at the
  first occurrence of the heading \<^verbatim>\<open>### EP-NN:\<close> of episode \<open>N - 1\<close> that has at least one
  character after it. The block is that first character, whatever it is, and the text
  after it up to the next newline followed by \<^verbatim>\<open>### EP-\<close> or by \<^verbatim>\<open>---\<close>, or the end of the
  document: the end of the block is looked for from the second character on, so a \<^verbatim>\<open>---\<close>
  line or another heading directly after the heading of episode \<open>N - 1\<close> does not end the
  block, which then runs on to the next such line. When the block contains the label with
  its colon, followed by optional whitespace and a text that begins with a character other
  than whitespace, the extractor returns that text up to the next two newlines in a row,
  the next newline followed by a hyphen, or the end of the block, trimmed of whitespace at
  both ends. It returns the empty string when \<open>N \<le> 1\<close>, when no block is found, when the
  block does not contain the label, or when only whitespace follows the first label. For
  episode 2, the document with a \<^verbatim>\<open>---\<close> line directly after \<^verbatim>\<open>### EP-01:\<close> and then the
  label with \<^verbatim>\<open>X\<close> gives the hook \<^verbatim>\<open>X\<close>, and the document with the heading of episode 2
  directly after \<^verbatim>\<open>### EP-01:\<close> and then the label with \<^verbatim>\<open>Z\<close> gives the hook \<^verbatim>\<open>Z\<close>.
\<close>

theorem prev_ending_hook_cases:
  "(ep_num \<le> 1 \<longrightarrow> prev_ending_hook text ep_num = []) \<and>
   (re_search (section_match (block_heading (nat (ep_num - 1))) block_stop) text = None \<longrightarrow>
      prev_ending_hook text ep_num = []) \<and>
   (\<forall>pre block rest.
      1 < ep_num \<and> text = pre @ block_heading (nat (ep_num - 1)) @ block @ rest \<and>
      first_occurrence (block_heading (nat (ep_num - 1))) pre (block @ rest) \<and>
      block \<noteq> [] \<and> ends_at block_stop block rest \<longrightarrow>
        (\<not> contains hook_label block \<longrightarrow> prev_ending_hook text ep_num = []) \<and>
        (\<forall>bpre ws body brest.
           block = bpre @ hook_label @ ws @ body @ brest \<and>
           first_occurrence hook_label bpre (ws @ body @ brest) \<and>
           (\<forall>c \<in> set ws. py_isspace c) \<and> body \<noteq> [] \<and> \<not> py_isspace (hd body) \<and>
           ends_at hook_stop body brest \<longrightarrow>
             prev_ending_hook text ep_num = strip body) \<and>
        (\<forall>bpre ws.
           block = bpre @ hook_label @ ws \<and> first_occurrence hook_label bpre ws \<and>
           (\<forall>c \<in> set ws. py_isspace c) \<longrightarrow>
             prev_ending_hook text ep_num = [])) \<and>
   block_heading 1 = ascii ''### EP-01:'' \<and> block_heading 12 = ascii ''### EP-12:'' \<and>
   prev_ending_hook
     (ascii ''### EP-01:'' @ NL # ascii ''---'' @ NL # hook_label @ ascii '' X'') 2 = ascii ''X'' \<and>
   prev_ending_hook
     (ascii ''### EP-01:'' @ NL # ascii ''### EP-02: t'' @ NL # hook_label @ ascii '' Z'') 2
     = ascii ''Z''"
proof (intro conjI allI impI)
  assume "ep_num \<le> 1"
  then show "prev_ending_hook text ep_num = []" by (simp add: prev_ending_hook_def)
next
  assume "re_search (section_match (block_heading (nat (ep_num - 1))) block_stop) text = None"
  then show "prev_ending_hook text ep_num = []" by (simp add: prev_ending_hook_def)
next
  fix pre block rest
  assume a: "1 < ep_num \<and> text = pre @ block_heading (nat (ep_num - 1)) @ block @ rest \<and>
      first_occurrence (block_heading (nat (ep_num - 1))) pre (block @ rest) \<and>
      block \<noteq> [] \<and> ends_at block_stop block rest"
  then have found:
    "re_search (section_match (block_heading (nat (ep_num - 1))) block_stop) text = Some block"
    using re_search_section by blast
  assume "\<not> contains hook_label block"
  then have "re_search hook_match block = None" by (rule hook_search_no_label)
  with a found show "prev_ending_hook text ep_num = []" by (simp add: prev_ending_hook_def)
next
  fix pre block rest bpre ws body brest
  assume a: "1 < ep_num \<and> text = pre @ block_heading (nat (ep_num - 1)) @ block @ rest \<and>
      first_occurrence (block_heading (nat (ep_num - 1))) pre (block @ rest) \<and>
      block \<noteq> [] \<and> ends_at block_stop block rest"
  then have found:
    "re_search (section_match (block_heading (nat (ep_num - 1))) block_stop) text = Some block"
    using re_search_section by blast
  assume b: "block = bpre @ hook_label @ ws @ body @ brest \<and>
      first_occurrence hook_label bpre (ws @ body @ brest) \<and>
      (\<forall>c \<in> set ws. py_isspace c) \<and> body \<noteq> [] \<and> \<not> py_isspace (hd body) \<and>
      ends_at hook_stop body brest"
  then have "re_search hook_match block = Some body"
    using hook_search_found by blast
  with a found show "prev_ending_hook text ep_num = strip body"
    by (simp add: prev_ending_hook_def)
next
  fix pre block rest bpre ws
  assume a: "1 < ep_num \<and> text = pre @ block_heading (nat (ep_num - 1)) @ block @ rest \<and>
      first_occurrence (block_heading (nat (ep_num - 1))) pre (block @ rest) \<and>
      block \<noteq> [] \<and> ends_at block_stop block rest"
  then have found:
    "re_search (section_match (block_heading (nat (ep_num - 1))) block_stop) text = Some block"
    using re_search_section by blast
  assume b: "block = bpre @ hook_label @ ws \<and> first_occurrence hook_label bpre ws \<and>
      (\<forall>c \<in> set ws. py_isspace c)"
  then have "(case re_search hook_match block of None \<Rightarrow> [] | Some hook \<Rightarrow> strip hook) = []"
    using hook_search_blank by blast
  with a found show "prev_ending_hook text ep_num = []"
    by (simp add: prev_ending_hook_def)
next
  show "block_heading 1 = ascii ''### EP-01:''" "block_heading 12 = ascii ''### EP-12:''"
    by (rule block_heading_examples)+
next
  show "prev_ending_hook
     (ascii ''### EP-01:'' @ NL # ascii ''---'' @ NL # hook_label @ ascii '' X'') 2 = ascii ''X''"
    by (rule prev_ending_hook_rule_first)
next
  show "prev_ending_hook
     (ascii ''### EP-01:'' @ NL # ascii ''### EP-02: t'' @ NL # hook_label @ ascii '' Z'') 2
     = ascii ''Z''"
    by (rule prev_ending_hook_heading_first)
qed

text \<open>
  The theorem at the document \<^verbatim>\<open>### EP-01:x\<close>, the label, \<^verbatim>\<open>A\<close>, and a line \<^verbatim>\<open>---\<close>, for
  episode 2: the block is \<^verbatim>\<open>x\<close>, the label and \<^verbatim>\<open>A\<close>, and the hook is \<^verbatim>\<open>A\<close>.
\<close>

theorem prev_ending_hook_cases_witness:
  "prev_ending_hook (ascii ''### EP-01:'' @ (ascii ''x'' @ hook_label @ ascii ''A'') @ NL # ascii ''---'') 2
     = ascii ''A''"
proof -
  let ?block = "ascii ''x'' @ hook_label @ [] @ ascii ''A'' @ []"
  let ?rest = "NL # ascii ''---''"
  let ?text = "[] @ block_heading (nat (2 - 1)) @ ?block @ ?rest"
  have h: "block_heading (nat (2 - 1)) = ascii ''### EP-01:''"
    by (simp add: block_heading_def ep_tag_def decimal.simps ascii_def)
  have nl: "NL \<notin> set ?block" by (simp add: ascii_def hook_label_def)
  have outer: "(1 :: int) < 2 \<and> ?text = [] @ block_heading (nat (2 - 1)) @ ?block @ ?rest \<and>
      first_occurrence (block_heading (nat (2 - 1))) [] (?block @ ?rest) \<and>
      ?block \<noteq> [] \<and> ends_at block_stop ?block ?rest"
  proof (intro conjI)
    show "first_occurrence (block_heading (nat (2 - 1))) [] (?block @ ?rest)"
      by (simp add: first_occurrence_def)
    show "?block \<noteq> []" by (simp add: ascii_def)
    show "ends_at block_stop ?block ?rest"
    proof (rule ends_at_no_nl)
      show "\<not> block_stop s" if "s \<noteq> []" "hd s \<noteq> NL" for s
        using that by (rule block_stop_not_nl)
      show "block_stop ?rest" by (simp add: block_stop_def startswith_def ascii_def)
      show "NL \<notin> set ?block" by (rule nl)
    qed
  qed simp_all
  have inner: "?block = ascii ''x'' @ hook_label @ [] @ ascii ''A'' @ [] \<and>
      first_occurrence hook_label (ascii ''x'') ([] @ ascii ''A'' @ []) \<and>
      (\<forall>c \<in> set ([] :: ustring). py_isspace c) \<and> ascii ''A'' \<noteq> [] \<and>
      \<not> py_isspace (hd (ascii ''A'')) \<and> ends_at hook_stop (ascii ''A'') []"
  proof (intro conjI)
    show "first_occurrence hook_label (ascii ''x'') ([] @ ascii ''A'' @ [])"
      by (simp add: first_occurrence_def ascii_def hook_label_def startswith_def)
    show "\<not> py_isspace (hd (ascii ''A''))" by (simp add: ascii_def py_isspace_def)
    show "ends_at hook_stop (ascii ''A'') []"
    proof (rule ends_at_no_nl)
      show "\<not> hook_stop s" if "s \<noteq> []" "hd s \<noteq> NL" for s
        using that by (rule hook_stop_not_nl)
      show "hook_stop []" by (simp add: hook_stop_def)
      show "NL \<notin> set (ascii ''A'')" by (simp add: ascii_def)
    qed
  qed (simp_all add: ascii_def)
  note inst = prev_ending_hook_cases [of 2 ?text]
  from inst [THEN conjunct2, THEN conjunct2, THEN conjunct1, rule_format, OF outer,
      THEN conjunct2, THEN conjunct1, rule_format, OF inner]
  have "prev_ending_hook ?text 2 = strip (ascii ''A'')" .
  moreover have "strip (ascii ''A'') = ascii ''A''"
    by (rule strip_keep) (simp_all add: ascii_def py_isspace_def)
  ultimately have e: "prev_ending_hook ?text 2 = ascii ''A''" by (rule trans)
  from e [unfolded h] show ?thesis by simp
qed

text \<open>
  Claim C5 as stated fails at the document whose block of episode 1 has the hook label
  followed by \<^verbatim>\<open>A\<close> and, on the next line, another bold label \<^verbatim>\<open>**M**:\<close> with the text \<^verbatim>\<open>B\<close>:
  the hook for episode 2 is not \<^verbatim>\<open>A\<close>; it runs on through the bold-labeled line, which
  neither is blank nor begins with a hyphen.
\<close>

theorem prev_ending_hook_bold_counterexample:
  "prev_ending_hook
     (ascii ''### EP-01: t'' @ NL # hook_label @ ascii '' A'' @ NL # ascii ''**M**: B'') 2
     = ascii ''A'' @ NL # ascii ''**M**: B'' \<and>
   prev_ending_hook
     (ascii ''### EP-01: t'' @ NL # hook_label @ ascii '' A'' @ NL # ascii ''**M**: B'') 2
     \<noteq> ascii ''A''"
proof -
  have "prev_ending_hook
     (ascii ''### EP-01: t'' @ NL # hook_label @ ascii '' A'' @ NL # ascii ''**M**: B'') 2
     = ascii ''A'' @ NL # ascii ''**M**: B''"
    by (simp add: prev_ending_hook_def block_heading_def ep_tag_def decimal.simps ascii_def
        hook_label_def section_match_def hook_match_def startswith_def block_stop_def
        hook_stop_def strip_def lstrip_def rstrip_def py_isspace_def Let_def)
  then show ?thesis by (simp add: ascii_def)
qed

end
